theory Spec2Isabelle
  imports Complex_Main "HOL-Library.Word" "HOL-Library.Multiset"
begin

unbundle bit_operations_syntax

section \<open>Data model of mysql-sniffer.go\<close>

text \<open>
  A Go \<open>[]byte\<close> is a list of 8-bit words; a Go \<open>string\<close> is a byte sequence as
  well, so both are \<open>byte list\<close>. A slice variable that may be \<open>nil\<close> (the flow's
  request and response buffers, the payload returned by \<open>carvePacket\<close>) is a
  \<open>byte list option\<close>, \<open>None\<close> being \<open>nil\<close>: the program tests \<open>rs.resbuffer != nil\<close>.
  \<open>log.Fatalf\<close> ends the process and a run-time panic unwinds it; both are error values.
\<close>

type_synonym byte = "8 word"
type_synonym gostring = "byte list"

datatype error = Fatal string | Panic string

definition bytes_of :: "string \<Rightarrow> byte list" where
  "bytes_of s = map of_char s"

text \<open>The constants of the \<open>const\<close> block (token types, tuning, packet types).\<close>

definition TOKEN_WORD :: int where "TOKEN_WORD = 0"
definition TOKEN_QUOTE :: int where "TOKEN_QUOTE = 1"
definition TOKEN_NUMBER :: int where "TOKEN_NUMBER = 2"
definition TOKEN_WHITESPACE :: int where "TOKEN_WHITESPACE = 3"
definition TOKEN_OTHER :: int where "TOKEN_OTHER = 4"

definition TIME_BUCKETS :: nat where "TIME_BUCKETS = 10000"

definition COM_QUERY :: int where "COM_QUERY = 3"

section \<open>carvePacket\<close>

text \<open>
  \<open>size := uint32(buf[0]) + uint32(buf[1])<<8 + uint32(buf[2])<<16\<close>, in 32-bit
  arithmetic.
\<close>

definition frame_size :: "byte list \<Rightarrow> 32 word" where
  "frame_size bs = ucast (bs ! 0) + push_bit 8 (ucast (bs ! 1)) + push_bit 16 (ucast (bs ! 2))"

text \<open>
  \<open>carvePacket\<close> takes the buffer by pointer: the model returns the pair
  \<open>(ptype, data)\<close> together with the new value of \<open>*buf\<close>. \<open>datalen\<close> is
  \<open>uint32(len(*buf))\<close>, the length cut to 32 bits. Reading \<open>(*buf)[k]\<close> past the
  length panics in Go, and so does slicing past the capacity, which is taken to be
  the length; the checks are written out.
\<close>

definition carvePacket ::
  "byte list option \<Rightarrow> error + ((int \<times> byte list option) \<times> byte list option)" where
  "carvePacket buf =
    (let bs = (case buf of None \<Rightarrow> [] | Some xs \<Rightarrow> xs);
         datalen = (of_nat (length bs) :: 32 word)
     in if datalen < 5 then Inr ((- 1, None), buf)
        else if length bs < 3 then Inl (Panic ''index out of range'')
        else
          let size = frame_size bs
          in if size = 0 \<or> datalen < size + 4 then Inr ((- 1, None), buf)
             else
               let end' = size + 4
               in if length bs < 5 then Inl (Panic ''index out of range'')
                  else
                    let ptype = int (unat (bs ! 4))
                    in if \<not> (5 \<le> unat (size + 4) \<and> unat (size + 4) \<le> length bs)
                       then Inl (Panic ''slice bounds out of range'')
                       else
                         let data = take (unat (size + 4) - 5) (drop 5 bs)
                         in if end' \<ge> datalen then Inr ((ptype, Some data), None)
                            else Inr ((ptype, Some data), Some (drop (unat end') bs)))"

text \<open>
  The wire format in the words of the specification: bytes 0 to 2 hold the 24-bit
  little-endian length \<open>L\<close>.
\<close>

definition declared_length :: "byte list \<Rightarrow> nat" where
  "declared_length bs = unat (bs ! 0) + 256 * unat (bs ! 1) + 65536 * unat (bs ! 2)"

definition buffered :: "byte list option \<Rightarrow> byte list" where
  "buffered buf = (case buf of None \<Rightarrow> [] | Some xs \<Rightarrow> xs)"

section \<open>scanToken\<close>

text \<open>
  The globals \<open>verbose\<close>, \<open>noclean\<close>, \<open>dirty\<close> and \<open>format\<close> are set once from the
  command line; they are the configuration every function below takes. An item of
  \<open>format\<close> is an \<open>int\<close> (one of the \<open>F_\<close> constants) or a string.
\<close>

datatype fmt_item = FInt int | FString gostring

record config =
  verbose :: bool
  noclean :: bool
  dirty :: bool
  format :: "fmt_item list"

text \<open>The byte classes of the \<open>switch\<close> in \<open>scanToken\<close>, by their character codes.\<close>

definition is_quote :: "byte \<Rightarrow> bool" where
  "is_quote b \<longleftrightarrow> b = 39 \<or> b = 34"

definition is_digit :: "byte \<Rightarrow> bool" where
  "is_digit b \<longleftrightarrow> b \<ge> 48 \<and> b \<le> 57"

definition is_space :: "byte \<Rightarrow> bool" where
  "is_space b \<longleftrightarrow> b = 32 \<or> (b \<ge> 9 \<and> b \<le> 13)"

definition is_letter :: "byte \<Rightarrow> bool" where
  "is_letter b \<longleftrightarrow> (b \<ge> 65 \<and> b \<le> 90) \<or> (b \<ge> 97 \<and> b \<le> 122)"

definition is_wordchar :: "byte \<Rightarrow> bool" where
  "is_wordchar b \<longleftrightarrow> is_digit b \<or> is_letter b \<or> (b = 36 \<or> b = 95)"

text \<open>
  The loop of the quote case, from index \<open>i\<close> with the flag \<open>escaped\<close>:
  \<open>case started_with\<close> comes first, then \<open>case 92\<close>, then \<open>default\<close>.
\<close>

function scan_quote :: "byte list \<Rightarrow> byte \<Rightarrow> bool \<Rightarrow> nat \<Rightarrow> nat" where
  "scan_quote query started_with escaped i =
     (if i < length query then
        (if query ! i = started_with then
           (if escaped then scan_quote query started_with False (i + 1) else i + 1)
         else if query ! i = 92 then scan_quote query started_with True (i + 1)
         else scan_quote query started_with False (i + 1))
      else length query)"
  by pat_completeness auto
termination
  by (relation "measure (\<lambda>(query, started_with, escaped, i). length query - i)") auto

declare scan_quote.simps [simp del]

text \<open>
  The loops of the number, whitespace and word cases have one shape: go on while the
  byte is of the allowed class, return \<open>i\<close> at the first byte that is not, and
  \<open>len(query)\<close> at the end of the input.
\<close>

function scan_run :: "(byte \<Rightarrow> bool) \<Rightarrow> byte list \<Rightarrow> nat \<Rightarrow> nat" where
  "scan_run allowed query i =
     (if i < length query then
        (if allowed (query ! i) then scan_run allowed query (i + 1) else i)
      else length query)"
  by pat_completeness auto
termination
  by (relation "measure (\<lambda>(allowed, query, i). length query - i)") auto

declare scan_run.simps [simp del]

definition scanToken :: "config \<Rightarrow> byte list \<Rightarrow> error + (nat \<times> int)" where
  "scanToken cfg query =
     (if length query < 1 then Inl (Fatal ''scanToken called with empty query'')
      else if verbose cfg \<and> noclean cfg then Inr (length query, TOKEN_OTHER)
      else
        let b = query ! 0
        in if b = 39 \<or> b = 34 then Inr (scan_quote query b False 1, TOKEN_QUOTE)
           else if b \<ge> 48 \<and> b \<le> 57 then Inr (scan_run is_digit query 1, TOKEN_NUMBER)
           else if b = 32 \<or> (b \<ge> 9 \<and> b \<le> 13) then
             Inr (scan_run is_space query 1, TOKEN_WHITESPACE)
           else if (b \<ge> 65 \<and> b \<le> 90) \<or> (b \<ge> 97 \<and> b \<le> 122) then
             Inr (scan_run is_wordchar query 1, TOKEN_WORD)
           else Inr (1, TOKEN_OTHER))"

lemma scan_quote_bounds:
  "i \<le> length query \<Longrightarrow>
     i \<le> scan_quote query started_with escaped i \<and>
     scan_quote query started_with escaped i \<le> length query"
proof (induction query started_with escaped i rule: scan_quote.induct)
  case (1 query started_with escaped i)
  note eq = scan_quote.simps [of query started_with escaped i]
  show ?case
  proof (cases "i < length query")
    case True
    then have "Suc i \<le> length query"
      by simp
    with True "1.IH" show ?thesis
      unfolding eq by (auto dest: Suc_leD)
  next
    case False
    with "1.prems" show ?thesis
      unfolding eq by simp
  qed
qed

lemma scan_run_bounds:
  "i \<le> length query \<Longrightarrow>
     i \<le> scan_run allowed query i \<and> scan_run allowed query i \<le> length query"
proof (induction allowed query i rule: scan_run.induct)
  case (1 allowed query i)
  note eq = scan_run.simps [of allowed query i]
  show ?case
  proof (cases "i < length query")
    case True
    then have "Suc i \<le> length query"
      by simp
    with True "1.IH" show ?thesis
      unfolding eq by (auto dest: Suc_leD)
  next
    case False
    with "1.prems" show ?thesis
      unfolding eq by simp
  qed
qed

lemma scanToken_bounds:
  assumes "scanToken cfg query = Inr (len, toktype)"
  shows "1 \<le> len \<and> len \<le> length query"
proof -
  have ne: "1 \<le> length query"
    using assms by (auto simp: scanToken_def Suc_le_eq split: if_splits)
  note q = scan_quote_bounds [OF ne] and r = scan_run_bounds [OF ne]
  show ?thesis
    using assms ne q r
    by (auto simp: scanToken_def Let_def split: if_splits)
qed

section \<open>cleanupQuery\<close>

text \<open>
  The functions of Go's \<open>strings\<close> package that \<open>cleanupQuery\<close> calls, as the library
  documents them. \<open>Index\<close> is the position of the first instance of \<open>sep\<close>, if any;
  \<open>SplitN s sep n\<close> with \<open>n > 0\<close> cuts \<open>s\<close> at the first \<open>n - 1\<close> separators, the last
  part being the unsplit rest; \<open>Replace s old new (-1)\<close> replaces the instances of a
  non-empty \<open>old\<close> from left to right, none overlapping another.
\<close>

fun HasPrefix :: "gostring \<Rightarrow> gostring \<Rightarrow> bool" where
  "HasPrefix s [] = True"
| "HasPrefix [] (p # ps) = False"
| "HasPrefix (c # s) (p # ps) = (c = p \<and> HasPrefix s ps)"

fun Index :: "gostring \<Rightarrow> gostring \<Rightarrow> nat option" where
  "Index [] sep = (if sep = [] then Some 0 else None)"
| "Index (c # s) sep =
     (if HasPrefix (c # s) sep then Some 0 else map_option Suc (Index s sep))"

definition Contains :: "gostring \<Rightarrow> gostring \<Rightarrow> bool" where
  "Contains s substr \<longleftrightarrow> Index s substr \<noteq> None"

fun split_loop :: "gostring \<Rightarrow> gostring \<Rightarrow> nat \<Rightarrow> gostring list" where
  "split_loop s sep 0 = [s]"
| "split_loop s sep (Suc k) =
     (case Index s sep of
        None \<Rightarrow> [s]
      | Some m \<Rightarrow> take m s # split_loop (drop (m + length sep) s) sep k)"

definition SplitN :: "gostring \<Rightarrow> gostring \<Rightarrow> nat \<Rightarrow> gostring list" where
  "SplitN s sep n = (if n = 0 then [] else split_loop s sep (min n (length s + 1) - 1))"

definition Join :: "gostring list \<Rightarrow> gostring \<Rightarrow> gostring" where
  "Join elems sep = (case elems of [] \<Rightarrow> [] | e # es \<Rightarrow> e @ concat (map (\<lambda>x. sep @ x) es))"

function ReplaceAll :: "gostring \<Rightarrow> gostring \<Rightarrow> gostring \<Rightarrow> gostring" where
  "ReplaceAll s old new =
     (if old = [] then s
      else case Index s old of
             None \<Rightarrow> s
           | Some j \<Rightarrow> take j s @ new @ ReplaceAll (drop (j + length old) s) old new)"
  by pat_completeness auto
termination
proof (relation "measure (\<lambda>(s, old, new). length s)")
  show "wf (measure (\<lambda>(s, old, new). length s))"
    by simp
next
  fix s old new :: gostring and j
  assume "old \<noteq> []" and j: "Index s old = Some j"
  then have "s \<noteq> []"
    by (cases s) auto
  with \<open>old \<noteq> []\<close> show "((drop (j + length old) s, old, new), s, old, new)
      \<in> measure (\<lambda>(s, old, new). length s)"
    by simp
qed

declare ReplaceAll.simps [simp del]

text \<open>
  The loop of \<open>cleanupQuery\<close>: \<open>i\<close> is the index into \<open>query\<close>, \<open>qspace\<close> the slice of
  strings built so far. \<open>query[i:i+length]\<close> panics when it reaches past the input.
  The recursion ends because \<open>scanToken\<close> returns a length of at least one.
\<close>

function cleanup_loop :: "config \<Rightarrow> byte list \<Rightarrow> nat \<Rightarrow> gostring list \<Rightarrow> error + gostring list" where
  "cleanup_loop cfg query i qspace =
     (if i < length query then
        (case scanToken cfg (drop i query) of
           Inl err \<Rightarrow> Inl err
         | Inr (len, toktype) \<Rightarrow>
             if toktype = TOKEN_WORD \<or> toktype = TOKEN_OTHER then
               (if length query < i + len then Inl (Panic ''slice bounds out of range'')
                else cleanup_loop cfg query (i + len) (qspace @ [take len (drop i query)]))
             else if toktype = TOKEN_NUMBER \<or> toktype = TOKEN_QUOTE then
               cleanup_loop cfg query (i + len) (qspace @ [bytes_of ''?''])
             else if toktype = TOKEN_WHITESPACE then
               cleanup_loop cfg query (i + len) (qspace @ [bytes_of '' ''])
             else Inl (Fatal ''scanToken returned invalid token type''))
      else Inr qspace)"
  by pat_completeness auto
termination
proof (relation "measure (\<lambda>(cfg, query, i, qspace). length query - i)")
  show "wf (measure (\<lambda>(cfg, query, i, qspace). length query - i))"
    by simp
qed (use scanToken_bounds in fastforce)+

declare cleanup_loop.simps [simp del]

text \<open>
  The route step: \<open>strings.SplitN(tmp, " ", 5)\<close> and the rebuilt text when the second
  and fourth parts are \<open>/*\<close> and \<open>*/\<close> and the third holds a colon.
\<close>

definition shorten_route :: "gostring \<Rightarrow> error + gostring" where
  "shorten_route tmp =
     (let parts = SplitN tmp (bytes_of '' '') 5
      in if length parts \<ge> 5 \<and> parts ! 1 = bytes_of ''/*'' \<and> parts ! 3 = bytes_of ''*/'' then
           (if Contains (parts ! 2) (bytes_of '':'') then
              (case SplitN (parts ! 2) (bytes_of '':'') 2 of
                 [p0, p1] \<Rightarrow>
                   Inr (parts ! 0 @ bytes_of '' /* '' @ p1 @ bytes_of '' */ '' @ parts ! 4)
               | _ \<Rightarrow> Inl (Panic ''index out of range''))
            else Inr tmp)
         else Inr tmp)"

definition cleanupQuery :: "config \<Rightarrow> byte list \<Rightarrow> error + gostring" where
  "cleanupQuery cfg query =
     (case cleanup_loop cfg query 0 [] of
        Inl err \<Rightarrow> Inl err
      | Inr qspace \<Rightarrow>
          (case shorten_route (Join qspace []) of
             Inl err \<Rightarrow> Inl err
           | Inr tmp \<Rightarrow> Inr (ReplaceAll tmp (bytes_of ''?, '') [])))"

text \<open>
  The tokens the loop of \<open>cleanupQuery\<close> meets from index \<open>i\<close> on, each with its start,
  its length and its type: the same recursion, keeping the spans instead of the text.
\<close>

function token_spans :: "config \<Rightarrow> byte list \<Rightarrow> nat \<Rightarrow> (nat \<times> nat \<times> int) list" where
  "token_spans cfg query i =
     (if i < length query then
        (case scanToken cfg (drop i query) of
           Inl err \<Rightarrow> []
         | Inr (len, toktype) \<Rightarrow> (i, len, toktype) # token_spans cfg query (i + len))
      else [])"
  by pat_completeness auto
termination
proof (relation "measure (\<lambda>(cfg, query, i). length query - i)")
  show "wf (measure (\<lambda>(cfg, query, i). length query - i))"
    by simp
qed (use scanToken_bounds in fastforce)+

declare token_spans.simps [simp del]

text \<open>What \<open>cleanupQuery\<close> appends to \<open>qspace\<close> for a token.\<close>

definition emit :: "byte list \<Rightarrow> nat \<times> nat \<times> int \<Rightarrow> gostring" where
  "emit query tok =
     (case tok of (i, len, toktype) \<Rightarrow>
        if toktype = TOKEN_WORD \<or> toktype = TOKEN_OTHER then take len (drop i query)
        else if toktype = TOKEN_NUMBER \<or> toktype = TOKEN_QUOTE then bytes_of ''?''
        else bytes_of '' '')"

text \<open>
  A list of token spans tiles \<open>query\<close> from index \<open>i\<close> to \<open>n\<close> when each span starts
  where the one before it ended, the first at \<open>i\<close> and the last ending at \<open>n\<close>, and
  none is empty.
\<close>

fun tiles :: "nat \<Rightarrow> (nat \<times> nat \<times> int) list \<Rightarrow> nat \<Rightarrow> bool" where
  "tiles i [] n = (i = n)"
| "tiles i ((s, len, toktype) # rest) n = (s = i \<and> 1 \<le> len \<and> tiles (i + len) rest n)"

definition span_bytes :: "byte list \<Rightarrow> nat \<times> nat \<times> int \<Rightarrow> byte list" where
  "span_bytes query tok = (case tok of (i, len, toktype) \<Rightarrow> take len (drop i query))"

definition token_types :: "int set" where
  "token_types = {TOKEN_WORD, TOKEN_QUOTE, TOKEN_NUMBER, TOKEN_WHITESPACE, TOKEN_OTHER}"

text \<open>The flags as \<open>main\<close> sets them when no option is given, with an empty format.\<close>

definition default_config :: config where
  "default_config = \<lparr>verbose = False, noclean = False, dirty = False, format = []\<rparr>"

text \<open>
  For the idempotence of \<open>cleanupQuery\<close>: a byte that is no quote and no digit and,
  if it is whitespace, is the space; and the test of the route step, true when the
  text has a route annotation that still holds a colon.
\<close>

definition plain_byte :: "byte \<Rightarrow> bool" where
  "plain_byte b \<longleftrightarrow> \<not> is_quote b \<and> \<not> is_digit b \<and> (is_space b \<longrightarrow> b = 32)"

definition route_colon :: "gostring \<Rightarrow> bool" where
  "route_colon tmp =
     (let parts = SplitN tmp (bytes_of '' '') 5
      in length parts \<ge> 5 \<and> parts ! 1 = bytes_of ''/*'' \<and> parts ! 3 = bytes_of ''*/'' \<and>
         Contains (parts ! 2) (bytes_of '':''))"

text \<open>
  The quote at index \<open>j\<close> that ends a literal opened by \<open>s\<close> in \<open>scanToken\<close>: the
  byte is \<open>s\<close> and the byte before it is no backslash.
\<close>

definition closes :: "byte list \<Rightarrow> byte \<Rightarrow> nat \<Rightarrow> bool" where
  "closes q s j \<longleftrightarrow> q ! j = s \<and> q ! (j - 1) \<noteq> 92"


section \<open>calculateTimes\<close>

text \<open>
  \<open>calculateTimes\<close> takes a pointer to a \<open>[TIME_BUCKETS]uint64\<close>; the array is a list
  of 64-bit words. Its loop and the integer division are \<open>calculateTimes_ns\<close>, in
  nanoseconds; \<open>calculateTimes\<close> then divides by 1000000. The \<open>float64\<close> results
  are modelled as reals: the rounding of the conversion and of the division is not
  modelled (the values 0 and 5 used below are exact in \<open>float64\<close>).
\<close>

type_synonym uint64 = "64 word"

text \<open>The loop state: counts, total', min, max, has_min.\<close>

fun calc_loop :: "uint64 list \<Rightarrow> uint64 \<times> uint64 \<times> uint64 \<times> uint64 \<times> bool
    \<Rightarrow> uint64 \<times> uint64 \<times> uint64 \<times> uint64 \<times> bool" where
  "calc_loop [] st = st"
| "calc_loop (val # rest) (counts, total', min', max', has_min) =
     (if val = 0 then calc_loop rest (counts, total', min', max', has_min)
      else
        let (has_min1, min1) = (if val < min' \<or> \<not> has_min then (True, val) else (has_min, min'));
            max1 = (if val > max' then val else max')
        in calc_loop rest (counts + 1, total' + val, min1, max1, has_min1))"

definition calculateTimes_ns :: "uint64 list \<Rightarrow> uint64 \<times> uint64 \<times> uint64" where
  "calculateTimes_ns timings =
     (case calc_loop timings (0, 0, 0, 0, False) of
        (counts, total', min', max', has_min) \<Rightarrow>
          let avg = (if counts > 0 then total' div counts else 0)
          in (min', avg, max'))"

definition valid_samples :: "uint64 list \<Rightarrow> uint64" where
  "valid_samples timings = (case calc_loop timings (0, 0, 0, 0, False) of
        (counts, total', min', max', has_min) \<Rightarrow> counts)"

definition calculateTimes :: "uint64 list \<Rightarrow> real \<times> real \<times> real" where
  "calculateTimes timings =
     (case calculateTimes_ns timings of
        (min', avg, max') \<Rightarrow>
          (real (unat min') / 1000000, real (unat avg) / 1000000, real (unat max') / 1000000))"

section \<open>processPacket\<close>

text \<open>
  The format constants follow \<open>COM_QUERY\<close> in the same \<open>const\<close> block, so \<open>iota\<close> is
  13 at \<open>F_NONE\<close>.
\<close>

definition F_NONE :: int where "F_NONE = 13"
definition F_QUERY :: int where "F_QUERY = 14"
definition F_ROUTE :: int where "F_ROUTE = 15"
definition F_SOURCE :: int where "F_SOURCE = 16"
definition F_SOURCEIP :: int where "F_SOURCEIP = 17"

text \<open>
  The structs \<open>queryData\<close> and \<open>source\<close> are records, the arrays of
  \<open>TIME_BUCKETS\<close> words are lists. \<open>rs.qdata\<close> points to the \<open>queryData\<close> that
  \<open>qbuf\<close> holds under the text of the request; an entry of \<open>qbuf\<close> is never
  replaced or removed, so the pointer is modelled by that key and a write through it
  is a write to the entry. The mutable globals (\<open>qbuf\<close>, \<open>querycount\<close>, \<open>times\<close>
  and the counters of \<open>stats\<close>) are one record that \<open>processPacket\<close> takes and
  returns with the flow. What a call reads from outside, the clock (\<open>time.Now\<close>,
  \<open>time.Since\<close>, in nanoseconds) and the index \<open>rand.Intn(TIME_BUCKETS)\<close>, is its
  \<open>env\<close>. Log output is not modelled.
\<close>

record queryData =
  count :: uint64
  bytes :: uint64
  qtimes :: "uint64 list"

record source =
  src :: gostring
  srcip :: gostring
  synced :: bool
  reqbuffer :: "byte list option"
  resbuffer :: "byte list option"
  reqSent :: "int option"
  reqTimes :: "uint64 list"
  qbytes :: uint64
  qdata :: "gostring option"
  qtext :: gostring

record globals =
  qbuf :: "gostring \<rightharpoonup> queryData"
  querycount :: "64 word"
  gtimes :: "uint64 list"
  rcvd :: uint64
  rcvd_sync :: uint64
  desyncs :: uint64
  streams :: uint64

record env =
  now :: int
  randn :: nat

text \<open>\<open>time.Since\<close> is a \<open>Duration\<close>, an \<open>int64\<close> that \<open>Time.Sub\<close> saturates.\<close>

definition Since :: "int \<Rightarrow> int \<Rightarrow> int" where
  "Since t sent = max (- (2 ^ 63)) (min (2 ^ 63 - 1) (t - sent))"

definition new_queryData :: queryData where
  "new_queryData = \<lparr>count = 0, bytes = 0, qtimes = replicate TIME_BUCKETS 0\<rparr>"

definition update_qdata :: "(queryData \<Rightarrow> queryData) \<Rightarrow> gostring option \<Rightarrow> globals \<Rightarrow> globals" where
  "update_qdata f p g =
     (case p of
        None \<Rightarrow> g
      | Some k \<Rightarrow> (case qbuf g k of None \<Rightarrow> g | Some q \<Rightarrow> g\<lparr>qbuf := (qbuf g)(k \<mapsto> f q)\<rparr>))"

text \<open>
  The loop over \<open>format\<close> that builds \<open>text\<close> for a request. An item that is
  neither an \<open>int\<close> nor a string cannot be written in \<open>fmt_item\<close>.
\<close>

fun format_text :: "config \<Rightarrow> source \<Rightarrow> byte list \<Rightarrow> fmt_item list \<Rightarrow> gostring \<Rightarrow> error + gostring" where
  "format_text cfg rs pdata [] text = Inr text"
| "format_text cfg rs pdata (FString s # items) text = format_text cfg rs pdata items (text @ s)"
| "format_text cfg rs pdata (FInt k # items) text =
     (if k = F_NONE then Inl (Fatal ''F_NONE in format string'')
      else if k = F_QUERY then
        (if dirty cfg then format_text cfg rs pdata items (text @ pdata)
         else (case cleanupQuery cfg pdata of
                 Inl err \<Rightarrow> Inl err
               | Inr q \<Rightarrow> format_text cfg rs pdata items (text @ q)))
      else if k = F_ROUTE then
        (let parts = SplitN pdata (bytes_of '' '') 5
         in if length parts \<ge> 4 \<and> parts ! 1 = bytes_of ''/*'' \<and> parts ! 3 = bytes_of ''*/'' then
              (if Contains (parts ! 2) (bytes_of '':'') then
                 (case SplitN (parts ! 2) (bytes_of '':'') 2 of
                    [p0, p1] \<Rightarrow> format_text cfg rs pdata items (text @ p1)
                  | _ \<Rightarrow> Inl (Panic ''index out of range''))
               else format_text cfg rs pdata items (text @ parts ! 2))
            else (case cleanupQuery cfg pdata of
                    Inl err \<Rightarrow> Inl err
                  | Inr q \<Rightarrow> format_text cfg rs pdata items (text @ bytes_of ''(unknown) '' @ q)))
      else if k = F_SOURCE then format_text cfg rs pdata items (text @ src rs)
      else if k = F_SOURCEIP then format_text cfg rs pdata items (text @ srcip rs)
      else Inl (Fatal ''Unknown F_XXXXXX int in format string''))"

text \<open>
  \<open>processPacket\<close> in four parts: \<open>ingest\<close> is the \<open>if request\<close> statement that
  fills the buffers and sets \<open>ptype\<close> and \<open>pdata\<close>; \<open>on_response\<close> and
  \<open>on_request\<close> are what follows the synchronization logic for a response and for
  a request; \<open>processPacket\<close> counts the packet, calls \<open>ingest\<close>, and holds the
  synchronization logic. \<open>data\<close> is the payload \<open>handlePacket\<close> passes, a slice
  that is not \<open>nil\<close>.
\<close>

definition ingest :: "globals \<Rightarrow> source \<Rightarrow> bool \<Rightarrow> byte list
    \<Rightarrow> error + (globals \<times> source \<times> int \<times> byte list option)" where
  "ingest g rs request data =
     (if request then
        (let (g1, rs1) =
               (if resbuffer rs \<noteq> None
                then (g\<lparr>desyncs := desyncs g + 1\<rparr>, rs\<lparr>resbuffer := None, synced := False\<rparr>)
                else (g, rs));
             rs2 = rs1\<lparr>reqbuffer := Some data\<rparr>
         in case carvePacket (reqbuffer rs2) of
              Inl err \<Rightarrow> Inl err
            | Inr ((ptype, pdata), buf') \<Rightarrow> Inr (g1, rs2\<lparr>reqbuffer := buf'\<rparr>, ptype, pdata))
      else Inr (g, rs\<lparr>resbuffer := None\<rparr>, 0, Some data))"

definition on_response :: "env \<Rightarrow> globals \<Rightarrow> source \<Rightarrow> uint64 \<Rightarrow> globals \<times> source" where
  "on_response e g rs plen =
     (case reqSent rs of
        None \<Rightarrow> (update_qdata (\<lambda>q. q\<lparr>bytes := bytes q + plen\<rparr>) (qdata rs) g, rs)
      | Some sent \<Rightarrow>
          let reqtime = (of_int (Since (now e) sent) :: uint64);
              rs1 = rs\<lparr>reqTimes := (reqTimes rs)[randn e := reqtime]\<rparr>;
              g1 = g\<lparr>gtimes := (gtimes g)[randn e := reqtime]\<rparr>;
              g2 = update_qdata
                     (\<lambda>q. q\<lparr>qtimes := (qtimes q)[randn e := reqtime], bytes := bytes q + plen\<rparr>)
                     (qdata rs1) g1
          in (g2, rs1\<lparr>reqSent := None\<rparr>))"

definition on_request :: "config \<Rightarrow> env \<Rightarrow> globals \<Rightarrow> source \<Rightarrow> byte list \<Rightarrow> uint64
    \<Rightarrow> error + (globals \<times> source)" where
  "on_request cfg e g rs pdata plen =
     (let rs1 = rs\<lparr>reqSent := Some (now e)\<rparr>;
          g1 = g\<lparr>querycount := querycount g + 1\<rparr>
      in case format_text cfg rs1 pdata (format cfg) [] of
           Inl err \<Rightarrow> Inl err
         | Inr text \<Rightarrow>
             let g2 = (case qbuf g1 text of
                         None \<Rightarrow> g1\<lparr>qbuf := (qbuf g1)(text \<mapsto> new_queryData)\<rparr>
                       | Some q \<Rightarrow> g1);
                 g3 = update_qdata (\<lambda>q. q\<lparr>count := count q + 1, bytes := bytes q + plen\<rparr>)
                        (Some text) g2
             in Inr (g3, rs1\<lparr>qtext := text, qdata := Some text, qbytes := plen\<rparr>))"

definition processPacket :: "config \<Rightarrow> env \<Rightarrow> globals \<Rightarrow> source \<Rightarrow> bool \<Rightarrow> byte list
    \<Rightarrow> error + (globals \<times> source)" where
  "processPacket cfg e g0 rs0 request data =
     (let g1 = g0\<lparr>rcvd := rcvd g0 + 1\<rparr>;
          g2 = (if synced rs0 then g1\<lparr>rcvd_sync := rcvd_sync g1 + 1\<rparr> else g1)
      in case ingest g2 rs0 request data of
           Inl err \<Rightarrow> Inl err
         | Inr (g, rs, ptype, pdata) \<Rightarrow>
             if \<not> synced rs \<and> \<not> (request \<and> ptype = COM_QUERY) then
               Inr (g, rs\<lparr>reqbuffer := None, resbuffer := None\<rparr>)
             else
               let rs' = (if \<not> synced rs then rs\<lparr>synced := True\<rparr> else rs)
               in if ptype = - 1 then Inr (g, rs')
                  else
                    let plen = (of_nat (length (buffered pdata)) :: uint64)
                    in if \<not> request then Inr (on_response e g rs' plen)
                       else on_request cfg e g rs' (buffered pdata) plen)"

text \<open>
  What the theorems about \<open>processPacket\<close> speak of: the command byte \<open>carvePacket\<close>
  finds in a chunk taken as the whole request buffer (\<open>-1\<close> when it finds no frame);
  a format that \<open>parseFormat\<close> can have built (it appends strings and the four
  placeholders only); a sequence of calls for one flow, each with its clock reading
  and random index, its direction and its chunk; the flow \<open>handlePacket\<close> makes for a
  new remote end; and the globals when the program starts.
\<close>

definition carved_type :: "byte list \<Rightarrow> int" where
  "carved_type data =
     (case carvePacket (Some data) of Inl err \<Rightarrow> - 1 | Inr ((ptype, pdata), buf') \<Rightarrow> ptype)"

definition valid_item :: "fmt_item \<Rightarrow> bool" where
  "valid_item item =
     (case item of
        FInt k \<Rightarrow> k = F_QUERY \<or> k = F_ROUTE \<or> k = F_SOURCE \<or> k = F_SOURCEIP
      | FString s \<Rightarrow> True)"

definition valid_format :: "config \<Rightarrow> bool" where
  "valid_format cfg = list_all valid_item (format cfg)"

type_synonym event = "env \<times> bool \<times> byte list"

definition is_query_request :: "event \<Rightarrow> bool" where
  "is_query_request ev = (case ev of (e, request, data) \<Rightarrow> request \<and> carved_type data = COM_QUERY)"

fun run :: "config \<Rightarrow> globals \<times> source \<Rightarrow> event list \<Rightarrow> error + (globals \<times> source)" where
  "run cfg st [] = Inr st"
| "run cfg (g, rs) ((e, request, data) # evs) =
     (case processPacket cfg e g rs request data of
        Inl err \<Rightarrow> Inl err
      | Inr st' \<Rightarrow> run cfg st' evs)"

definition new_source :: "gostring \<Rightarrow> gostring \<Rightarrow> source" where
  "new_source s ip =
     \<lparr>src = s, srcip = ip, synced = False, reqbuffer = None, resbuffer = None, reqSent = None,
      reqTimes = replicate TIME_BUCKETS 0, qbytes = 0, qdata = None, qtext = []\<rparr>"

definition initial_globals :: globals where
  "initial_globals =
     \<lparr>qbuf = Map.empty, querycount = 0, gtimes = replicate TIME_BUCKETS 0,
      rcvd = 0, rcvd_sync = 0, desyncs = 0, streams = 0\<rparr>"

definition env0 :: env where
  "env0 = \<lparr>now = 0, randn = 0\<rparr>"

section \<open>handleStatusUpdate\<close>














section \<open>Facts about carvePacket\<close>

lemma unat_byte_less: "unat (a :: byte) < 256"
  using unsigned_less [of a, where 'a = nat] by simp

lemma unat_ucast_byte: "unat (ucast (a :: byte) :: 32 word) = unat a"
  using unat_byte_less [of a] by (simp add: unsigned_ucast_eq take_bit_nat_eq_self)

lemma unat_le24:
  "unat (ucast (a :: byte) + push_bit 8 (ucast (b :: byte)) + push_bit 16 (ucast (c :: byte)) :: 32 word)
     = unat a + 256 * unat b + 65536 * unat c"
proof -
  have a: "unat a < 256" and b: "unat b < 256" and c: "unat c < 256"
    by (rule unat_byte_less)+
  have ub: "unat (push_bit 8 (ucast b :: 32 word)) = 256 * unat b"
    unfolding unsigned_push_bit_eq unat_ucast_byte
    using b by (simp add: take_bit_nat_eq_self push_bit_eq_mult)
  have uc: "unat (push_bit 16 (ucast c :: 32 word)) = 65536 * unat c"
    unfolding unsigned_push_bit_eq unat_ucast_byte
    using c by (simp add: take_bit_nat_eq_self push_bit_eq_mult)
  show ?thesis
    using a b c by (simp add: unat_word_ariths unat_ucast_byte ub uc)
qed

lemma unat_frame_size: "unat (frame_size bs) = declared_length bs"
  unfolding frame_size_def declared_length_def by (rule unat_le24)

lemma declared_length_less: "declared_length bs < 2 ^ 24"
  using unat_byte_less [of "bs ! 0"] unat_byte_less [of "bs ! 1"] unat_byte_less [of "bs ! 2"]
  by (simp add: declared_length_def)

lemma unat_frame_end: "unat (frame_size bs + 4) = declared_length bs + 4"
  using declared_length_less [of bs] by (simp add: unat_word_ariths unat_frame_size)

lemma frame_size_zero_iff: "frame_size bs = 0 \<longleftrightarrow> declared_length bs = 0"
  by (simp add: unat_frame_size [symmetric] unat_eq_0)

lemma unat_datalen_le: "unat (of_nat n :: 32 word) \<le> n"
  by (simp add: unat_of_nat)

lemma unat_datalen: "n < 2 ^ 32 \<Longrightarrow> unat (of_nat n :: 32 word) = n"
  by (simp add: unat_of_nat)

lemma carvePacket_nat:
  "carvePacket buf =
    (let bs = buffered buf; n = unat (of_nat (length bs) :: 32 word); L = declared_length bs
     in if n < 5 \<or> L = 0 \<or> n < L + 4 then Inr ((- 1, None), buf)
        else Inr ((int (unat (bs ! 4)), Some (take (L - 1) (drop 5 bs))),
                  if n \<le> L + 4 then None else Some (drop (L + 4) bs)))"
proof -
  define bs where "bs = buffered buf"
  define n where "n = unat (of_nat (length bs) :: 32 word)"
  have nle: "n \<le> length bs"
    unfolding n_def by (rule unat_datalen_le)
  show ?thesis
    using nle
    by (simp add: carvePacket_def buffered_def [symmetric] bs_def [symmetric] Let_def
        word_less_nat_alt word_le_nat_alt unat_frame_end frame_size_zero_iff n_def [symmetric])
qed

text \<open>
  C5. \<open>carvePacket\<close> never panics, whatever the buffer. It returns the incomplete
  result \<open>(-1, nil)\<close> exactly when fewer than 5 bytes are buffered, or the declared
  length is 0, or fewer than \<open>L + 4\<close> bytes are buffered, and then the buffer is
  what it was. The equivalence is for buffers shorter than \<open>2^32\<close> bytes, the range
  in which \<open>uint32(len(*buf))\<close> is the length (a buffer is the payload of one
  captured packet, at most 65536 bytes).
\<close>

theorem carvePacket_incomplete:
  "\<exists>r buf'. carvePacket buf = Inr (r, buf') \<and>
     (r = (- 1, None) \<longrightarrow> buf' = buf) \<and>
     (length (buffered buf) < 2 ^ 32 \<longrightarrow>
        (r = (- 1, None)) =
          (length (buffered buf) < 5 \<or> declared_length (buffered buf) = 0 \<or>
           length (buffered buf) < declared_length (buffered buf) + 4))"
  by (auto simp: carvePacket_nat Let_def unat_datalen)

theorem carvePacket_incomplete_witness:
  "length (buffered (Some [9, 0, 0, 0, 3, 1])) < 2 ^ 32 \<and>
   carvePacket (Some [9, 0, 0, 0, 3, 1]) = Inr ((- 1, None), Some [9, 0, 0, 0, 3, 1])"
  using carvePacket_incomplete [of "Some [9, 0, 0, 0, 3, 1]"]
  by (auto simp: buffered_def declared_length_def)

text \<open>
  C1, as amended. For a buffer of at least 5 bytes (and fewer than \<open>2^32\<close>) whose
  length field \<open>L\<close> is positive and which holds at least \<open>L + 4\<close> bytes,
  \<open>carvePacket\<close> returns byte 4 as the command byte and the \<open>L - 1\<close> bytes at offsets
  5 to \<open>L + 3\<close> as the payload, and leaves the bytes after the first \<open>L + 4\<close> in the
  buffer (\<open>nil\<close> when none is left).
\<close>

theorem carvePacket_complete:
  assumes "length bs < 2 ^ 32" and "5 \<le> length bs"
    and "0 < declared_length bs" and "declared_length bs + 4 \<le> length bs"
  shows "carvePacket (Some bs) =
    Inr ((int (unat (bs ! 4)), Some (take (declared_length bs - 1) (drop 5 bs))),
         if length bs = declared_length bs + 4 then None
         else Some (drop (declared_length bs + 4) bs))"
  using assms by (auto simp: carvePacket_nat Let_def unat_datalen buffered_def)

theorem carvePacket_complete_witness:
  "length [3, 0, 0, 0, 3, 83, 69, 76, 69, 67, 84 :: byte] < 2 ^ 32 \<and>
   5 \<le> length [3, 0, 0, 0, 3, 83, 69, 76, 69, 67, 84 :: byte] \<and>
   0 < declared_length [3, 0, 0, 0, 3, 83, 69, 76, 69, 67, 84] \<and>
   declared_length [3, 0, 0, 0, 3, 83, 69, 76, 69, 67, 84] + 4
     \<le> length [3, 0, 0, 0, 3, 83, 69, 76, 69, 67, 84 :: byte] \<and>
   carvePacket (Some [3, 0, 0, 0, 3, 83, 69, 76, 69, 67, 84]) =
     Inr ((3, Some [83, 69]), Some [76, 69, 67, 84])"
  using carvePacket_complete [of "[3, 0, 0, 0, 3, 83, 69, 76, 69, 67, 84]"]
  by (simp add: declared_length_def)

text \<open>
  C1 as stated reads the payload as the \<open>L\<close> bytes at offsets 5 to \<open>5 + L - 1\<close>. On the
  specification's own example (\<open>L = 3\<close>, command 3, then the bytes of \<open>SELECT\<close>) the
  payload returned is the two bytes \<open>SE\<close> at offsets 5 and 6, not the three bytes at
  offsets 5 to 7: the frame is \<open>L + 4\<close> bytes long and byte 4 counts in \<open>L\<close>.
\<close>

theorem carvePacket_payload_counterexample:
  "carvePacket (Some [3, 0, 0, 0, 3, 83, 69, 76, 69, 67, 84]) =
     Inr ((3, Some [83, 69]), Some [76, 69, 67, 84]) \<and>
   take (declared_length [3, 0, 0, 0, 3, 83, 69, 76, 69, 67, 84])
     (drop 5 [3, 0, 0, 0, 3, 83, 69, 76, 69, 67, 84 :: byte]) = [83, 69, 76] \<and>
   \<not> (\<forall>bs. length bs < 2 ^ 32 \<and> 5 \<le> length bs \<and> 0 < declared_length bs \<and>
          declared_length bs + 4 \<le> length bs \<longrightarrow>
        (\<exists>buf'. carvePacket (Some bs) =
           Inr ((int (unat (bs ! 4)), Some (take (declared_length bs) (drop 5 bs))), buf')))"
proof (intro conjI notI)
  show c: "carvePacket (Some [3, 0, 0, 0, 3, 83, 69, 76, 69, 67, 84]) =
      Inr ((3, Some [83, 69]), Some [76, 69, 67, 84])"
    by (simp add: carvePacket_nat Let_def buffered_def declared_length_def)
  show "take (declared_length [3, 0, 0, 0, 3, 83, 69, 76, 69, 67, 84])
     (drop 5 [3, 0, 0, 0, 3, 83, 69, 76, 69, 67, 84 :: byte]) = [83, 69, 76]"
    by (simp add: declared_length_def)
  assume a: "\<forall>bs. length bs < 2 ^ 32 \<and> 5 \<le> length bs \<and> 0 < declared_length bs \<and>
          declared_length bs + 4 \<le> length bs \<longrightarrow>
        (\<exists>buf'. carvePacket (Some bs) =
           Inr ((int (unat (bs ! 4)), Some (take (declared_length bs) (drop 5 bs))), buf'))"
  from c a [rule_format, of "[3, 0, 0, 0, 3, 83, 69, 76, 69, 67, 84]"] show False
    by (simp add: declared_length_def)
qed

section \<open>Facts about the tokenizer and cleanupQuery\<close>

lemma span_bytes_simp: "span_bytes query (i, len, toktype) = take len (drop i query)"
  by (simp add: span_bytes_def)

lemma scanToken_total:
  assumes "query \<noteq> []"
  shows "\<exists>len toktype. scanToken cfg query = Inr (len, toktype) \<and> toktype \<in> token_types"
  using assms by (auto simp: scanToken_def Let_def token_types_def Suc_le_eq)

lemma scanToken_cases:
  assumes "i < length query"
  obtains len toktype where "scanToken cfg (drop i query) = Inr (len, toktype)"
    and "toktype \<in> token_types" and "1 \<le> len" and "i + len \<le> length query"
proof -
  from assms have "drop i query \<noteq> []" by simp
  from scanToken_total [OF this, of cfg] obtain len toktype
    where s: "scanToken cfg (drop i query) = Inr (len, toktype)" and t: "toktype \<in> token_types"
    by blast
  from scanToken_bounds [OF s] assms have "1 \<le> len" "i + len \<le> length query"
    by auto
  with s t that show thesis by blast
qed

lemma cleanup_loop_spans:
  "cleanup_loop cfg query i qspace = Inr (qspace @ map (emit query) (token_spans cfg query i))"
proof (induction cfg query i arbitrary: qspace rule: token_spans.induct)
  case (1 cfg query i)
  show ?case
  proof (cases "i < length query")
    case False
    then show ?thesis
      by (simp add: cleanup_loop.simps [of cfg query i] token_spans.simps [of cfg query i])
  next
    case True
    then obtain len toktype where s: "scanToken cfg (drop i query) = Inr (len, toktype)"
      and t: "toktype \<in> token_types" and l: "1 \<le> len" "i + len \<le> length query"
      by (rule scanToken_cases)
    note ih = "1.IH" [OF True s refl]
    from t l show ?thesis
      unfolding cleanup_loop.simps [of cfg query i qspace] token_spans.simps [of cfg query i]
      using True s by (auto simp: ih emit_def token_types_def TOKEN_WORD_def TOKEN_QUOTE_def TOKEN_NUMBER_def TOKEN_WHITESPACE_def TOKEN_OTHER_def)
  qed
qed

lemma token_spans_tiles:
  "i \<le> length query \<Longrightarrow> tiles i (token_spans cfg query i) (length query)"
proof (induction cfg query i rule: token_spans.induct)
  case (1 cfg query i)
  show ?case
  proof (cases "i < length query")
    case False
    with "1.prems" show ?thesis
      by (subst token_spans.simps) simp
  next
    case True
    then obtain len toktype where s: "scanToken cfg (drop i query) = Inr (len, toktype)"
      and t: "toktype \<in> token_types" and l: "1 \<le> len" "i + len \<le> length query"
      by (rule scanToken_cases)
    note ih = "1.IH" [OF True s refl l(2)]
    show ?thesis
      unfolding token_spans.simps [of cfg query i]
      using True s l ih by simp
  qed
qed

lemma tiles_concat:
  "tiles i spans (length query) \<Longrightarrow> concat (map (span_bytes query) spans) = drop i query"
proof (induction spans arbitrary: i)
  case Nil
  then show ?case by simp
next
  case (Cons tok spans)
  obtain s len toktype where tok: "tok = (s, len, toktype)"
    by (cases tok)
  from Cons.prems tok have "s = i" and t: "tiles (i + len) spans (length query)"
    by simp_all
  from Cons.IH [OF t] have "concat (map (span_bytes query) spans) = drop (i + len) query" .
  moreover have "take len (drop i query) @ drop (i + len) query = drop i query"
    by (metis append_take_drop_id drop_drop add.commute)
  ultimately show ?case
    using tok \<open>s = i\<close> by (simp add: span_bytes_simp)
qed


lemma SplitN_two:
  assumes "Contains s sep" and "sep \<noteq> []"
  shows "\<exists>p0 p1. SplitN s sep 2 = [p0, p1]"
proof -
  from assms(1) obtain m where m: "Index s sep = Some m"
    by (auto simp: Contains_def)
  with assms(2) have "s \<noteq> []"
    by (cases s) auto
  then have "min 2 (length s + 1) - 1 = Suc 0"
    by (cases s) auto
  with m show ?thesis
    by (simp add: SplitN_def)
qed

lemma shorten_route_total: "\<exists>tmp'. shorten_route tmp = Inr tmp'"
proof -
  have "\<exists>p0 p1. SplitN s (bytes_of '':'') 2 = [p0, p1]" if "Contains s (bytes_of '':'')" for s
    using that by (rule SplitN_two) (simp add: bytes_of_def)
  then show ?thesis
    by (fastforce simp: shorten_route_def Let_def)
qed

lemma cleanupQuery_tokens_aux:
  "\<exists>tmp. shorten_route (Join (map (emit query) (token_spans cfg query 0)) []) = Inr tmp \<and>
         cleanupQuery cfg query = Inr (ReplaceAll tmp (bytes_of ''?, '') [])"
proof -
  obtain tmp where "shorten_route (Join (map (emit query) (token_spans cfg query 0)) []) = Inr tmp"
    using shorten_route_total by blast
  then show ?thesis
    using cleanup_loop_spans [of cfg query 0 "[]"] by (simp add: cleanupQuery_def)
qed

lemma cleanupQuery_total: "\<exists>text. cleanupQuery cfg query = Inr text"
  using cleanupQuery_tokens_aux [of query cfg] by blast




lemma Join_empty_sep: "Join elems [] = concat elems"
proof -
  have h: "map ((@) []) es = es" for es :: "gostring list"
    by (induction es) simp_all
  show ?thesis
    by (cases elems) (simp_all add: Join_def h)
qed

text \<open>
  \<open>ReplaceAll\<close> read from left to right: an instance of \<open>old\<close> at the head is
  replaced and the search goes on after it; any other byte is kept.
\<close>

lemma ReplaceAll_HasPrefix:
  assumes "old \<noteq> []" and "HasPrefix s old"
  shows "ReplaceAll s old new = new @ ReplaceAll (drop (length old) s) old new"
proof -
  from assms have "Index s old = Some 0"
    by (cases s; cases old) auto
  with assms(1) show ?thesis
    by (subst ReplaceAll.simps) simp
qed

lemma ReplaceAll_Cons:
  assumes "old \<noteq> []" and "\<not> HasPrefix (c # s) old"
  shows "ReplaceAll (c # s) old new = c # ReplaceAll s old new"
proof (cases "Index s old")
  case None
  with assms show ?thesis
    by (simp add: ReplaceAll.simps [of "c # s"] ReplaceAll.simps [of s])
next
  case (Some j)
  with assms show ?thesis
    by (simp add: ReplaceAll.simps [of "c # s"] ReplaceAll.simps [of s])
qed


text \<open>
  C10. On a non-empty input \<open>scanToken\<close> returns a token of one of the five types
  whose length is at least 1 and at most the length of the input. The loop of
  \<open>cleanupQuery\<close> therefore ends on every input, without a fatal error or a panic;
  what it builds is \<open>emit\<close> of the tokens it met; these tokens tile the input from
  index 0 to its length, each starting where the one before ended, so that their
  bytes put together are the input.
\<close>

theorem tokenizer_partitions:
  "(query \<noteq> [] \<longrightarrow>
      (\<exists>len toktype. scanToken cfg query = Inr (len, toktype) \<and>
         1 \<le> len \<and> len \<le> length query \<and> toktype \<in> token_types)) \<and>
   cleanup_loop cfg query 0 [] = Inr (map (emit query) (token_spans cfg query 0)) \<and>
   tiles 0 (token_spans cfg query 0) (length query) \<and>
   concat (map (span_bytes query) (token_spans cfg query 0)) = query \<and>
   (\<exists>text. cleanupQuery cfg query = Inr text)"
proof (intro conjI impI)
  assume "query \<noteq> []"
  from scanToken_total [OF this, of cfg] scanToken_bounds [of cfg query]
  show "\<exists>len toktype. scanToken cfg query = Inr (len, toktype) \<and>
         1 \<le> len \<and> len \<le> length query \<and> toktype \<in> token_types"
    by blast
next
  show "cleanup_loop cfg query 0 [] = Inr (map (emit query) (token_spans cfg query 0))"
    using cleanup_loop_spans [of cfg query 0 "[]"] by simp
next
  show t: "tiles 0 (token_spans cfg query 0) (length query)"
    by (rule token_spans_tiles) simp
  from tiles_concat [OF t]
  show "concat (map (span_bytes query) (token_spans cfg query 0)) = query"
    by simp
next
  show "\<exists>text. cleanupQuery cfg query = Inr text"
    by (rule cleanupQuery_total)
qed

theorem tokenizer_partitions_witness:
  "bytes_of ''id=42'' \<noteq> [] \<and>
   (\<exists>len toktype. scanToken default_config (bytes_of ''id=42'') = Inr (len, toktype) \<and>
      1 \<le> len \<and> len \<le> length (bytes_of ''id=42'') \<and> toktype \<in> token_types)"
  using tokenizer_partitions [of "bytes_of ''id=42''" default_config]
  by (simp add: bytes_of_def)

text \<open>
  What the loop of the quote case does: from index \<open>i\<close>, with \<open>escaped\<close> set exactly
  when the byte before is a backslash, it passes every quote that follows a
  backslash and returns just after the first one that does not, or the length of the
  input when there is none.
\<close>

lemma scan_quote_closes:
  "s \<noteq> 92 \<Longrightarrow> 1 \<le> i \<Longrightarrow> i \<le> length q \<Longrightarrow> escaped = (q ! (i - 1) = 92) \<Longrightarrow>
     (\<forall>j. i \<le> j \<and> j + 1 < scan_quote q s escaped i \<longrightarrow> \<not> closes q s j) \<and>
     (i < scan_quote q s escaped i \<and> closes q s (scan_quote q s escaped i - 1) \<or>
      scan_quote q s escaped i = length q \<and> (\<forall>j. i \<le> j \<and> j < length q \<longrightarrow> \<not> closes q s j))"
proof (induction q s escaped i rule: scan_quote.induct)
  case (1 query started_with escaped i)
  note eq = scan_quote.simps [of query started_with escaped i]
  show ?case
  proof (cases "i < length query")
    case False
    with "1.prems" show ?thesis
      unfolding eq by auto
  next
    case True
    then have le: "i + 1 \<le> length query" and one: "1 \<le> i + 1"
      by simp_all
    consider (esc) "query ! i = started_with" "escaped"
      | (fin) "query ! i = started_with" "\<not> escaped"
      | (bsl) "query ! i \<noteq> started_with" "query ! i = 92"
      | (oth) "query ! i \<noteq> started_with" "query ! i \<noteq> 92"
      by blast
    then show ?thesis
    proof cases
      case fin
      with True "1.prems" show ?thesis
        unfolding eq by (auto simp: closes_def)
    next
      case esc
      have e: "False = (query ! (i + 1 - 1) = 92)"
        using esc "1.prems"(1) by simp
      have n: "\<not> closes query started_with i"
        using esc "1.prems"(4) by (simp add: closes_def)
      have r: "scan_quote query started_with escaped i = scan_quote query started_with False (i + 1)"
        unfolding eq using True esc by simp
      from "1.IH"(1) [OF True esc(1) esc(2) "1.prems"(1) one le e] n
      show ?thesis
        unfolding r by (auto simp: le_Suc_eq Suc_le_eq less_Suc_eq_le dest: le_neq_implies_less)
    next
      case bsl
      have e: "True = (query ! (i + 1 - 1) = 92)"
        using bsl by simp
      have n: "\<not> closes query started_with i"
        using bsl by (simp add: closes_def)
      have r: "scan_quote query started_with escaped i = scan_quote query started_with True (i + 1)"
        unfolding eq using True bsl by simp
      from "1.IH"(2) [OF True bsl(1) bsl(2) "1.prems"(1) one le e] n
      show ?thesis
        unfolding r by (auto simp: le_Suc_eq Suc_le_eq less_Suc_eq_le dest: le_neq_implies_less)
    next
      case oth
      have e: "False = (query ! (i + 1 - 1) = 92)"
        using oth by simp
      have n: "\<not> closes query started_with i"
        using oth by (simp add: closes_def)
      have r: "scan_quote query started_with escaped i = scan_quote query started_with False (i + 1)"
        unfolding eq using True oth by simp
      from "1.IH"(3) [OF True oth(1) oth(2) "1.prems"(1) one le e] n
      show ?thesis
        unfolding r by (auto simp: le_Suc_eq Suc_le_eq less_Suc_eq_le dest: le_neq_implies_less)
    qed
  qed
qed

text \<open>
  C7. Take the six bytes \<open>'\\' x\<close> (quote, two backslashes, quote, space, \<open>x\<close>).
  With a backslash escaping exactly the next byte, the second backslash is escaped
  and the quote at index 3 ends the literal, a token of length 4. \<open>scanToken\<close> sets
  \<open>escaped\<close> at the second backslash as well, skips that quote and returns the
  whole input, length 6.
\<close>

theorem scanToken_doubled_backslash:
  "scanToken default_config [39, 92, 92, 39, 32, 120] = Inr (6, TOKEN_QUOTE)"
  by code_simp


section \<open>Idempotence of cleanupQuery\<close>

lemma token_spans_member:
  "(k, len, toktype) \<in> set (token_spans cfg query i) \<Longrightarrow>
     i \<le> k \<and> k < length query \<and> scanToken cfg (drop k query) = Inr (len, toktype)"
proof (induction cfg query i rule: token_spans.induct)
  case (1 cfg query i)
  show ?case
  proof (cases "i < length query")
    case False
    with "1.prems" show ?thesis
      by (simp add: token_spans.simps [of cfg query i])
  next
    case True
    then obtain len1 ty1 where s: "scanToken cfg (drop i query) = Inr (len1, ty1)"
      and l: "1 \<le> len1" "i + len1 \<le> length query"
      by (rule scanToken_cases)
    from "1.prems" True s
    consider "(k, len, toktype) = (i, len1, ty1)"
      | "(k, len, toktype) \<in> set (token_spans cfg query (i + len1))"
      by (auto simp: token_spans.simps [of cfg query i])
    then show ?thesis
    proof cases
      case 1
      with True s show ?thesis by simp
    next
      case 2
      from "1.IH" [OF True s refl 2] show ?thesis
        by simp
    qed
  qed
qed

lemma scan_run_stop:
  "1 \<le> length q \<Longrightarrow> (1 < length q \<longrightarrow> \<not> allowed (q ! 1)) \<Longrightarrow> scan_run allowed q 1 = 1"
  by (subst scan_run.simps) (auto simp: le_Suc_eq)

lemma HasPrefix_Index: "HasPrefix (drop i s) sep \<Longrightarrow> i \<le> length s \<Longrightarrow> Index s sep \<noteq> None"
proof (induction s arbitrary: i)
  case Nil
  then show ?case by (cases sep) auto
next
  case (Cons c s)
  show ?case
  proof (cases i)
    case 0
    with Cons.prems show ?thesis by simp
  next
    case (Suc j)
    with Cons.prems Cons.IH [of j] show ?thesis by auto
  qed
qed

lemma two_spaces:
  assumes "Suc i < length z" and "z ! i = 32" and "z ! Suc i = 32"
  shows "Contains z (bytes_of ''  '')"
proof -
  from assms have "drop i z = 32 # 32 # drop (Suc (Suc i)) z"
    by (metis Cons_nth_drop_Suc Suc_lessD)
  then have "HasPrefix (drop i z) (bytes_of ''  '')"
    by (simp add: bytes_of_def)
  from HasPrefix_Index [OF this] assms(1) show ?thesis
    by (simp add: Contains_def)
qed

lemma emit_plain:
  assumes nt: "\<not> (verbose cfg \<and> noclean cfg)"
    and pl: "\<forall>b\<in>set z. plain_byte b"
    and ns: "\<not> Contains z (bytes_of ''  '')"
    and m: "(k, len, toktype) \<in> set (token_spans cfg z 0)"
  shows "emit z (k, len, toktype) = take len (drop k z)"
proof -
  from token_spans_member [OF m] have k: "k < length z"
    and s: "scanToken cfg (drop k z) = Inr (len, toktype)"
    by simp_all
  from k pl have p: "plain_byte (z ! k)"
    by simp
  from k have h: "drop k z ! 0 = z ! k" and ne: "\<not> length (drop k z) < 1"
    by simp_all
  show ?thesis
  proof (cases "is_space (z ! k)")
    case False
    with s p nt h ne show ?thesis
      by (auto simp: scanToken_def Let_def emit_def plain_byte_def is_quote_def is_digit_def
          is_space_def TOKEN_WORD_def TOKEN_OTHER_def split: if_splits)
  next
    case True
    with p have b: "z ! k = 32"
      by (simp add: plain_byte_def)
    have nx: "\<not> is_space (z ! Suc k)" if "Suc k < length z"
    proof
      assume "is_space (z ! Suc k)"
      with pl that have "z ! Suc k = 32"
        by (simp add: plain_byte_def)
      with two_spaces [OF that b] ns show False
        by simp
    qed
    have "scan_run is_space (drop k z) 1 = 1"
      using k nx by (intro scan_run_stop) (auto simp: Suc_le_eq)
    with s nt h ne b have "len = 1" and "toktype = TOKEN_WHITESPACE"
      by (auto simp: scanToken_def Let_def split: if_splits)
    moreover from k b have "take 1 (drop k z) = [32]"
      by (simp add: Cons_nth_drop_Suc [symmetric])
    ultimately show ?thesis
      by (simp add: emit_def bytes_of_def TOKEN_WHITESPACE_def TOKEN_WORD_def TOKEN_OTHER_def
          TOKEN_NUMBER_def TOKEN_QUOTE_def)
  qed
qed

lemma emit_noclean:
  assumes "verbose cfg \<and> noclean cfg"
    and m: "(k, len, toktype) \<in> set (token_spans cfg z 0)"
  shows "emit z (k, len, toktype) = take len (drop k z)"
proof -
  from token_spans_member [OF m] have k: "k < length z"
    and s: "scanToken cfg (drop k z) = Inr (len, toktype)"
    by simp_all
  with assms(1) show ?thesis
    by (auto simp: scanToken_def emit_def split: if_splits)
qed

lemma tokens_fixed:
  assumes "(verbose cfg \<and> noclean cfg) \<or> (\<forall>b\<in>set z. plain_byte b) \<and> \<not> Contains z (bytes_of ''  '')"
  shows "Join (map (emit z) (token_spans cfg z 0)) [] = z"
proof -
  have "emit z tok = span_bytes z tok" if "tok \<in> set (token_spans cfg z 0)" for tok
  proof -
    obtain k len toktype where t: "tok = (k, len, toktype)"
      by (cases tok)
    with that assms emit_plain [of cfg z k len toktype] emit_noclean [of cfg k len toktype z]
    show ?thesis
      by (auto simp: span_bytes_simp)
  qed
  then have e: "map (emit z) (token_spans cfg z 0) = map (span_bytes z) (token_spans cfg z 0)"
    by simp
 have "tiles 0 (token_spans cfg z 0) (length z)"
    by (rule token_spans_tiles) simp
  from tiles_concat [OF this] have "concat (map (span_bytes z) (token_spans cfg z 0)) = z"
    by simp
  then show ?thesis
    by (simp only: Join_empty_sep e)
qed

lemma wordchar_not_space: "is_wordchar b \<Longrightarrow> \<not> is_digit b \<Longrightarrow> \<not> is_space b"
  by (auto simp: is_wordchar_def is_letter_def is_space_def word_le_nat_alt)

lemma scan_run_allowed:
  "i \<le> j \<Longrightarrow> j < scan_run allowed q i \<Longrightarrow> allowed (q ! j)"
proof (induction allowed q i rule: scan_run.induct)
  case (1 allowed query i)
  note eq = scan_run.simps [of allowed query i]
  show ?case
  proof (cases "i < length query \<and> allowed (query ! i)")
    case False
    with "1.prems" scan_run_bounds [of i query allowed] show ?thesis
      unfolding eq by (auto split: if_splits)
  next
    case True
    show ?thesis
    proof (cases "j = i")
      case True
      with \<open>i < length query \<and> allowed (query ! i)\<close> show ?thesis by simp
    next
      case False
      with "1.prems" True "1.IH" show ?thesis
        unfolding eq by (auto split: if_splits)
    qed
  qed
qed

lemma plain_32: "plain_byte 32"
  by (simp add: plain_byte_def is_quote_def is_digit_def)

lemma emit_bytes_plain:
  assumes nt: "\<not> (verbose cfg \<and> noclean cfg)"
    and nq: "\<forall>b\<in>set x. \<not> is_quote b \<and> \<not> is_digit b"
    and m: "(k, len, toktype) \<in> set (token_spans cfg x 0)"
  shows "\<forall>b\<in>set (emit x (k, len, toktype)). plain_byte b"
proof -
  from token_spans_member [OF m] have k: "k < length x"
    and s: "scanToken cfg (drop k x) = Inr (len, toktype)"
    by simp_all
  from k nq have p: "\<not> is_quote (x ! k)" "\<not> is_digit (x ! k)"
    by simp_all
  from k have h: "drop k x ! 0 = x ! k" and ne: "\<not> length (drop k x) < 1"
    by simp_all
  have sub: "\<not> is_quote b \<and> \<not> is_digit b" if "b \<in> set (take len (drop k x))" for b
    using that nq by (meson in_set_dropD in_set_takeD)
  consider (space) "is_space (x ! k)" | (letter) "\<not> is_space (x ! k)" "is_letter (x ! k)"
    | (other) "\<not> is_space (x ! k)" "\<not> is_letter (x ! k)"
    by blast
  then show ?thesis
  proof cases
    case space
    with s p nt h ne have "toktype = TOKEN_WHITESPACE"
      by (auto simp: scanToken_def Let_def is_quote_def is_digit_def is_space_def split: if_splits)
    then show ?thesis
      by (simp add: emit_def bytes_of_def plain_32 TOKEN_WHITESPACE_def TOKEN_WORD_def
          TOKEN_OTHER_def TOKEN_NUMBER_def TOKEN_QUOTE_def)
  next
    case letter
    with s p nt h ne have t: "toktype = TOKEN_WORD" and l: "len = scan_run is_wordchar (drop k x) 1"
      by (auto simp: scanToken_def Let_def is_quote_def is_digit_def is_space_def is_letter_def
          split: if_splits)
    have "plain_byte b" if b: "b \<in> set (take len (drop k x))" for b
    proof -
      from b obtain j where j: "j < len" "j < length (drop k x)" and bj: "b = drop k x ! j"
        by (auto simp: in_set_conv_nth)
      have "is_wordchar b"
      proof (cases j)
        case 0
        with bj h letter show ?thesis
          by (simp add: is_wordchar_def)
      next
        case (Suc j')
        with j l bj scan_run_allowed [of 1 j is_wordchar "drop k x"] show ?thesis
          by simp
      qed
      with sub [OF b] wordchar_not_space [of b] show ?thesis
        by (simp add: plain_byte_def)
    qed
    with t show ?thesis
      by (simp add: emit_def)
  next
    case other
    with s p nt h ne have t: "toktype = TOKEN_OTHER" and l: "len = 1"
      by (auto simp: scanToken_def Let_def is_quote_def is_digit_def is_space_def is_letter_def
          split: if_splits)
    from k have "take 1 (drop k x) = [x ! k]"
      by (simp add: Cons_nth_drop_Suc [symmetric])
    with t l p other show ?thesis
      by (simp add: emit_def plain_byte_def)
  qed
qed

lemma split_loop_set: "p \<in> set (split_loop s sep n) \<Longrightarrow> set p \<subseteq> set s"
proof (induction n arbitrary: s)
  case 0
  then show ?case by simp
next
  case (Suc n)
  show ?case
  proof (cases "Index s sep")
    case None
    with Suc.prems show ?thesis by simp
  next
    case (Some m)
    with Suc.prems consider "p = take m s" | "p \<in> set (split_loop (drop (m + length sep) s) sep n)"
      by auto
    then show ?thesis
    proof cases
      case 1
      then show ?thesis by (simp add: set_take_subset)
    next
      case 2
      from Suc.IH [OF this] set_drop_subset [of "m + length sep" s] show ?thesis
        by blast
    qed
  qed
qed

lemma SplitN_set:
  assumes "i < length (SplitN s sep n)"
  shows "set (SplitN s sep n ! i) \<subseteq> set s"
proof -
  from assms have n: "n \<noteq> 0"
    by (cases "n = 0") (simp_all add: SplitN_def)
  with assms have "SplitN s sep n ! i \<in> set (split_loop s sep (min n (length s + 1) - 1))"
    by (simp add: SplitN_def)
  then show ?thesis
    by (rule split_loop_set)
qed

lemma ReplaceAll_set: "set (ReplaceAll s old []) \<subseteq> set s"
proof (induction s old "[] :: gostring" rule: ReplaceAll.induct)
  case (1 s old)
  note eq = ReplaceAll.simps [of s old "[]"]
  show ?case
  proof (cases "old = []")
    case True
    then show ?thesis unfolding eq by simp
  next
    case False
    show ?thesis
    proof (cases "Index s old")
      case None
      with False show ?thesis unfolding eq by simp
    next
      case (Some j)
      from "1.hyps" [OF False Some] set_drop_subset [of "j + length old" s] set_take_subset [of j s]
      show ?thesis
        unfolding eq using False Some by auto
    qed
  qed
qed

lemma shorten_route_set:
  assumes "shorten_route tmp = Inr tmp'" and "\<forall>b\<in>set tmp. plain_byte b"
  shows "\<forall>b\<in>set tmp'. plain_byte b"
proof -
  define parts where "parts = SplitN tmp (bytes_of '' '') 5"
  have lit: "\<forall>b\<in>set (bytes_of '' /* '') \<union> set (bytes_of '' */ ''). plain_byte b"
    by (simp add: bytes_of_def plain_byte_def is_quote_def is_digit_def is_space_def)
  show ?thesis
  proof (cases "length parts \<ge> 5 \<and> parts ! 1 = bytes_of ''/*'' \<and> parts ! 3 = bytes_of ''*/'' \<and>
      Contains (parts ! 2) (bytes_of '':'')")
    case False
    with assms show ?thesis
      by (auto simp: shorten_route_def Let_def parts_def split: if_splits)
  next
    case True
    then obtain p0 p1 where sp: "SplitN (parts ! 2) (bytes_of '':'') 2 = [p0, p1]"
      using SplitN_two [of "parts ! 2" "bytes_of '':''"] by (auto simp: bytes_of_def)
    with True assms(1) have t: "tmp' = parts ! 0 @ bytes_of '' /* '' @ p1 @ bytes_of '' */ '' @ parts ! 4"
      by (simp add: shorten_route_def Let_def parts_def)
    from True have "5 \<le> length parts"
      by simp
    then have "0 < length parts" "2 < length parts" "4 < length parts"
      by linarith+
    then have "set (parts ! 0) \<subseteq> set tmp" "set (parts ! 2) \<subseteq> set tmp" "set (parts ! 4) \<subseteq> set tmp"
      unfolding parts_def by (simp_all add: SplitN_set)
    moreover from sp SplitN_set [of 1 "parts ! 2" "bytes_of '':''" 2] have "set p1 \<subseteq> set (parts ! 2)"
      by simp
    ultimately show ?thesis
      using assms(2) lit unfolding t by auto
  qed
qed

lemma cleanupQuery_plain:
  assumes nt: "\<not> (verbose cfg \<and> noclean cfg)"
    and nq: "\<forall>b\<in>set x. \<not> is_quote b \<and> \<not> is_digit b"
    and c: "cleanupQuery cfg x = Inr z"
  shows "\<forall>b\<in>set z. plain_byte b"
proof -
  from cleanupQuery_tokens_aux [of x cfg] c obtain tmp
    where sh: "shorten_route (Join (map (emit x) (token_spans cfg x 0)) []) = Inr tmp"
      and z: "z = ReplaceAll tmp (bytes_of ''?, '') []"
    by auto
  have "\<forall>b\<in>set (Join (map (emit x) (token_spans cfg x 0)) []). plain_byte b"
    using emit_bytes_plain [OF nt nq] by (auto simp: Join_empty_sep)
  from shorten_route_set [OF sh this] ReplaceAll_set [of tmp "bytes_of ''?, ''"] show ?thesis
    unfolding z by blast
qed

lemma ReplaceAll_absent: "\<not> Contains s old \<Longrightarrow> ReplaceAll s old new = s"
  by (subst ReplaceAll.simps) (simp add: Contains_def)

lemma shorten_route_fixed: "\<not> route_colon tmp \<Longrightarrow> shorten_route tmp = Inr tmp"
  by (auto simp: shorten_route_def route_colon_def Let_def)

text \<open>
  C9, as amended. Let \<open>x\<close> hold no quote delimiter and no digit, and let \<open>z\<close> be
  \<open>cleanupQuery\<close> of \<open>x\<close>. If \<open>z\<close> holds no instance of \<open>"?, "\<close>, no two
  adjacent spaces and no route annotation with a colon, then \<open>cleanupQuery\<close> of \<open>z\<close>
  is \<open>z\<close>.
\<close>

theorem cleanupQuery_idempotent:
  assumes "list_all (\<lambda>b. \<not> is_quote b \<and> \<not> is_digit b) x"
    and "cleanupQuery cfg x = Inr z"
    and "\<not> Contains z (bytes_of ''?, '')"
    and "\<not> Contains z (bytes_of ''  '')"
    and "\<not> route_colon z"
  shows "cleanupQuery cfg z = Inr z"
proof -
  have "(verbose cfg \<and> noclean cfg) \<or>
      (\<forall>b\<in>set z. plain_byte b) \<and> \<not> Contains z (bytes_of ''  '')"
    using cleanupQuery_plain [of cfg x z] assms(1,2,4) by (auto simp: list_all_iff)
  from tokens_fixed [OF this] have "Join (map (emit z) (token_spans cfg z 0)) [] = z" .
  with cleanupQuery_tokens_aux [of z cfg] shorten_route_fixed [OF assms(5)]
    ReplaceAll_absent [OF assms(3)]
  show ?thesis
    by auto
qed

theorem cleanupQuery_idempotent_witness:
  "list_all (\<lambda>b. \<not> is_quote b \<and> \<not> is_digit b) (bytes_of ''SELECT  * FROM t WHERE id=?'') \<and>
   cleanupQuery default_config (bytes_of ''SELECT  * FROM t WHERE id=?'') =
     Inr (bytes_of ''SELECT * FROM t WHERE id=?'') \<and>
   \<not> Contains (bytes_of ''SELECT * FROM t WHERE id=?'') (bytes_of ''?, '') \<and>
   \<not> Contains (bytes_of ''SELECT * FROM t WHERE id=?'') (bytes_of ''  '') \<and>
   \<not> route_colon (bytes_of ''SELECT * FROM t WHERE id=?'') \<and>
   cleanupQuery default_config (bytes_of ''SELECT * FROM t WHERE id=?'') =
     Inr (bytes_of ''SELECT * FROM t WHERE id=?'')"
proof -
  have a: "list_all (\<lambda>b. \<not> is_quote b \<and> \<not> is_digit b) (bytes_of ''SELECT  * FROM t WHERE id=?'')"
    by code_simp
  have b: "cleanupQuery default_config (bytes_of ''SELECT  * FROM t WHERE id=?'') =
     Inr (bytes_of ''SELECT * FROM t WHERE id=?'')"
    by code_simp
  have c: "\<not> Contains (bytes_of ''SELECT * FROM t WHERE id=?'') (bytes_of ''?, '')"
    by code_simp
  have d: "\<not> Contains (bytes_of ''SELECT * FROM t WHERE id=?'') (bytes_of ''  '')"
    by code_simp
  have e: "\<not> route_colon (bytes_of ''SELECT * FROM t WHERE id=?'')"
    by code_simp
  from cleanupQuery_idempotent [OF a b c d e] a b c d e show ?thesis
    by simp
qed

text \<open>
  Where a second pass still changes the text, besides a new instance of \<open>"?, "\<close>
  left by the removal: the route step strips one colon at a time, and it leaves two
  adjacent spaces when nothing follows the colon. Each first line below shows the
  text to be a result of \<open>cleanupQuery\<close>.
\<close>

lemma route_steps:
  "cleanupQuery default_config (bytes_of ''a /* h:r:s:t */ b'') = Inr (bytes_of ''a /* r:s:t */ b'')"
  "cleanupQuery default_config (bytes_of ''a /* r:s:t */ b'') = Inr (bytes_of ''a /* s:t */ b'')"
  "cleanupQuery default_config (bytes_of ''a /* s:t */ b'') = Inr (bytes_of ''a /* t */ b'')"
  by code_simp+

lemma empty_route_steps:
  "cleanupQuery default_config (bytes_of ''a /* g:h: */ b'') = Inr (bytes_of ''a /* h: */ b'')"
  "cleanupQuery default_config (bytes_of ''a /* h: */ b'') = Inr (bytes_of ''a /*  */ b'')"
  "cleanupQuery default_config (bytes_of ''a /*  */ b'') = Inr (bytes_of ''a /* */ b'')"
  by code_simp+

text \<open>
  C9 as stated fails at \<open>x = "??, , "\<close>, which is \<open>cleanupQuery\<close> of \<open>"???, , , "\<close> and
  holds no quote and no digit: \<open>cleanupQuery\<close> of \<open>x\<close> is \<open>"?, "\<close>, and
  \<open>cleanupQuery\<close> of that is the empty text.
\<close>

theorem cleanupQuery_idempotent_counterexample:
  "cleanupQuery default_config (bytes_of ''???, , , '') = Inr (bytes_of ''??, , '') \<and>
   list_all (\<lambda>b. \<not> is_quote b \<and> \<not> is_digit b) (bytes_of ''??, , '') \<and>
   cleanupQuery default_config (bytes_of ''??, , '') = Inr (bytes_of ''?, '') \<and>
   cleanupQuery default_config (bytes_of ''?, '') = Inr [] \<and>
   \<not> (\<forall>x. (\<exists>y. cleanupQuery default_config y = Inr x) \<and>
          list_all (\<lambda>b. \<not> is_quote b \<and> \<not> is_digit b) x \<longrightarrow>
        (\<exists>z. cleanupQuery default_config x = Inr z \<and> cleanupQuery default_config z = Inr z))"
proof (intro conjI notI)
  show s1: "cleanupQuery default_config (bytes_of ''???, , , '') = Inr (bytes_of ''??, , '')"
    by code_simp
  show p: "list_all (\<lambda>b. \<not> is_quote b \<and> \<not> is_digit b) (bytes_of ''??, , '')"
    by code_simp
  show s2: "cleanupQuery default_config (bytes_of ''??, , '') = Inr (bytes_of ''?, '')"
    by code_simp
  show s3: "cleanupQuery default_config (bytes_of ''?, '') = Inr []"
    by code_simp
  assume a: "\<forall>x. (\<exists>y. cleanupQuery default_config y = Inr x) \<and>
          list_all (\<lambda>b. \<not> is_quote b \<and> \<not> is_digit b) x \<longrightarrow>
        (\<exists>z. cleanupQuery default_config x = Inr z \<and> cleanupQuery default_config z = Inr z)"
  from s1 p a [rule_format, of "bytes_of ''??, , ''"]
  obtain z where "cleanupQuery default_config (bytes_of ''??, , '') = Inr z"
    and "cleanupQuery default_config z = Inr z"
    by blast
  with s2 s3 have "bytes_of ''?, '' = []"
    by simp
  then show False
    by (simp add: bytes_of_def)
qed

section \<open>Whitespace tokens and the result of cleanupQuery\<close>












section \<open>Facts about calculateTimes\<close>

lemma calc_loop_filter: "calc_loop timings st = calc_loop (filter (\<lambda>v. v \<noteq> 0) timings) st"
  by (induction timings st rule: calc_loop.induct) (auto simp: Let_def)

lemma calc_loop_counts_total:
  "calc_loop timings (counts, total', mn, mx, hm) = (c1, t1, mn1, mx1, hm1) \<Longrightarrow>
    c1 = counts + of_nat (length (filter (\<lambda>v. v \<noteq> 0) timings)) \<and>
    t1 = total' + sum_list (filter (\<lambda>v. v \<noteq> 0) timings)"
  by (induction timings "(counts, total', mn, mx, hm)" arbitrary: counts total' mn mx hm
      rule: calc_loop.induct)
    (auto simp: Let_def split: if_splits)

lemma calc_loop_zeros: "\<forall>v\<in>set timings. v = 0 \<Longrightarrow> calc_loop timings st = st"
  by (induction timings st rule: calc_loop.induct) auto

lemma filter_single:
  "i < length timings \<Longrightarrow> \<forall>v\<in>set timings. v = 0 \<Longrightarrow> x \<noteq> 0 \<Longrightarrow>
     filter (\<lambda>v. v \<noteq> 0) (timings[i := x]) = [x]"
proof (induction timings arbitrary: i)
  case Nil
  then show ?case by simp
next
  case (Cons t timings)
  show ?case
  proof (cases i)
    case 0
    with Cons.prems show ?thesis
      by (simp add: filter_empty_conv)
  next
    case (Suc j)
    with Cons.prems Cons.IH [of j] show ?thesis
      by simp
  qed
qed

lemma unat_sum_list: "unat (sum_list (ws :: uint64 list)) = sum_list (map unat ws) mod 2 ^ 64"
proof (induction ws)
  case Nil
  then show ?case by simp
next
  case (Cons w ws)
  have "unat (w + sum_list ws) = (unat w + unat (sum_list ws)) mod 2 ^ 64"
    by (simp add: unat_word_ariths)
  also have "\<dots> = (unat w + sum_list (map unat ws)) mod 2 ^ 64"
    by (simp add: Cons.IH mod_add_right_eq)
  finally show ?case by simp
qed

lemma calculateTimes_ns_avg:
  assumes "length timings = TIME_BUCKETS"
  shows "unat (fst (snd (calculateTimes_ns timings))) =
    (let nz = filter (\<lambda>v. v \<noteq> 0) timings
     in if nz = [] then 0 else (sum_list (map unat nz) mod 2 ^ 64) div length nz)"
proof -
  define nz where "nz = filter (\<lambda>v. v \<noteq> 0) timings"
  obtain c1 t1 mn1 mx1 hm1 where r: "calc_loop timings (0, 0, 0, 0, False) = (c1, t1, mn1, mx1, hm1)"
    by (metis prod_cases5)
  from calc_loop_counts_total [OF r] have c1: "c1 = of_nat (length nz)" and t1: "t1 = sum_list nz"
    by (simp_all add: nz_def)
  have "length nz \<le> length timings"
    by (simp add: nz_def)
  with assms have len: "length nz < 2 ^ 64"
    by (simp add: TIME_BUCKETS_def)
  then have uc: "unat c1 = length nz"
    by (simp add: c1 unat_of_nat)
  have pos: "0 < c1 \<longleftrightarrow> nz \<noteq> []"
    using uc by (simp add: word_less_nat_alt)
  have "unat (t1 div c1) = (sum_list (map unat nz) mod 2 ^ 64) div length nz"
    by (simp add: unat_div uc t1 unat_sum_list)
  with r pos show ?thesis
    by (simp add: calculateTimes_ns_def Let_def nz_def [symmetric])
qed

text \<open>
  C6. \<open>calculateTimes\<close> gives the same result with the zero slots left out. When
  every slot is zero it returns 0 for the minimum, the average and the maximum, and
  its count of samples is 0. When one slot holds 5000000 and the others zero, the
  three results are 5 (milliseconds), from one sample. For an array of
  \<open>TIME_BUCKETS\<close> slots the average is the quotient, rounded down, of the sum of the
  non-zero samples (as \<open>total\<close> holds it, in 64 bits) by their number, divided by
  1000000 only after that.
\<close>

theorem calculateTimes_summary:
  "calculateTimes timings = calculateTimes (filter (\<lambda>v. v \<noteq> 0) timings) \<and>
   ((\<forall>v\<in>set timings. v = 0) \<longrightarrow>
      calculateTimes timings = (0, 0, 0) \<and> valid_samples timings = 0) \<and>
   ((\<forall>v\<in>set timings. v = 0) \<and> i < length timings \<longrightarrow>
      calculateTimes (timings[i := 5000000]) = (5, 5, 5) \<and>
      valid_samples (timings[i := 5000000]) = 1) \<and>
   (length timings = TIME_BUCKETS \<longrightarrow>
      fst (snd (calculateTimes timings)) =
        real (let nz = filter (\<lambda>v. v \<noteq> 0) timings
              in if nz = [] then 0 else (sum_list (map unat nz) mod 2 ^ 64) div length nz)
          / 1000000)"
proof (intro conjI impI)
  show "calculateTimes timings = calculateTimes (filter (\<lambda>v. v \<noteq> 0) timings)"
    by (simp add: calculateTimes_def calculateTimes_ns_def calc_loop_filter [of timings])
next
  assume z: "\<forall>v\<in>set timings. v = 0"
  then show "calculateTimes timings = (0, 0, 0)"
    by (simp add: calculateTimes_def calculateTimes_ns_def calc_loop_zeros)
  from z show "valid_samples timings = 0"
    by (simp add: valid_samples_def calc_loop_zeros)
next
  assume "(\<forall>v\<in>set timings. v = 0) \<and> i < length timings"
  then have f: "filter (\<lambda>v. v \<noteq> 0) (timings[i := 5000000]) = [5000000 :: uint64]"
    by (simp add: filter_single)
  show "calculateTimes (timings[i := 5000000]) = (5, 5, 5)"
    by (simp add: calculateTimes_def calculateTimes_ns_def
        calc_loop_filter [of "timings[i := 5000000]"] f)
  show "valid_samples (timings[i := 5000000]) = 1"
    by (simp add: valid_samples_def calc_loop_filter [of "timings[i := 5000000]"] f)
next
  assume "length timings = TIME_BUCKETS"
  note avg = calculateTimes_ns_avg [OF this]
  obtain mn av mx where r: "calculateTimes_ns timings = (mn, av, mx)"
    by (cases "calculateTimes_ns timings")
  have "fst (snd (calculateTimes timings)) = real (unat av) / 1000000"
    unfolding calculateTimes_def r by (simp only: prod.case fst_conv snd_conv)
  with avg r
  show "fst (snd (calculateTimes timings)) =
        real (let nz = filter (\<lambda>v. v \<noteq> 0) timings
              in if nz = [] then 0 else (sum_list (map unat nz) mod 2 ^ 64) div length nz)
          / 1000000"
    by (simp only: fst_conv snd_conv)
qed

theorem calculateTimes_summary_witness:
  "list_all (\<lambda>v. v = 0) (replicate TIME_BUCKETS (0 :: uint64)) \<and>
   7 < length (replicate TIME_BUCKETS (0 :: uint64)) \<and>
   length (replicate TIME_BUCKETS (0 :: uint64)) = TIME_BUCKETS \<and>
   calculateTimes (replicate TIME_BUCKETS 0) = (0, 0, 0) \<and>
   valid_samples (replicate TIME_BUCKETS 0) = 0 \<and>
   calculateTimes ((replicate TIME_BUCKETS 0)[7 := 5000000]) = (5, 5, 5)"
proof -
  have a: "\<forall>v\<in>set (replicate TIME_BUCKETS (0 :: uint64)). v = 0"
    by simp
  have b: "7 < length (replicate TIME_BUCKETS (0 :: uint64))"
    by (simp add: TIME_BUCKETS_def)
  have c: "length (replicate TIME_BUCKETS (0 :: uint64)) = TIME_BUCKETS"
    by simp
  have d: "list_all (\<lambda>v. v = 0) (replicate TIME_BUCKETS (0 :: uint64))"
    by (simp add: list_all_iff)
  from calculateTimes_summary [of "replicate TIME_BUCKETS 0" 7] a b c d show ?thesis
    by blast
qed

section \<open>Facts about processPacket\<close>

lemma carvePacket_Inr: "\<exists>ptype pdata buf'. carvePacket buf = Inr ((ptype, pdata), buf')"
  by (simp add: carvePacket_nat Let_def)

lemma ingest_response: "ingest g rs False data = Inr (g, rs\<lparr>resbuffer := None\<rparr>, 0, Some data)"
  by (simp add: ingest_def)

lemma ingest_request:
  assumes "carvePacket (Some data) = Inr ((ptype, pdata), buf')"
  shows "ingest g rs True data =
    Inr (if resbuffer rs \<noteq> None then g\<lparr>desyncs := desyncs g + 1\<rparr> else g,
         (if resbuffer rs \<noteq> None then rs\<lparr>resbuffer := None, synced := False\<rparr> else rs)
           \<lparr>reqbuffer := buf'\<rparr>,
         ptype, pdata)"
  using assms by (simp add: ingest_def)

lemma carved_type_eq:
  "carvePacket (Some data) = Inr ((ptype, pdata), buf') \<Longrightarrow> carved_type data = ptype"
  by (simp add: carved_type_def)

lemma format_text_total:
  "list_all valid_item items \<Longrightarrow> \<exists>res. format_text cfg rs pdata items acc = Inr res"
proof (induction items arbitrary: acc)
  case Nil
  then show ?case by simp
next
  case (Cons item items)
  then have v: "valid_item item" and IH: "\<And>acc. \<exists>res. format_text cfg rs pdata items acc = Inr res"
    by simp_all
  show ?case
  proof (cases item)
    case (FString s)
    with IH show ?thesis by simp
  next
    case (FInt k)
    obtain q where q: "cleanupQuery cfg pdata = Inr q"
      using cleanupQuery_total by blast
    have sp: "\<exists>p0 p1. SplitN s (bytes_of '':'') 2 = [p0, p1]" if "Contains s (bytes_of '':'')" for s
      using that by (rule SplitN_two) (simp add: bytes_of_def)
    from v FInt consider "k = F_QUERY" | "k = F_ROUTE" | "k = F_SOURCE" | "k = F_SOURCEIP"
      by (auto simp: valid_item_def)
    then show ?thesis
    proof cases
      case 1
      with FInt q IH show ?thesis
        by (simp add: F_NONE_def F_QUERY_def)
    next
      case 2
      show ?thesis
      proof (cases "Contains (SplitN pdata (bytes_of '' '') 5 ! 2) (bytes_of '':'')")
        case True
        from sp [OF this] obtain p0 p1
          where "SplitN (SplitN pdata (bytes_of '' '') 5 ! 2) (bytes_of '':'') 2 = [p0, p1]"
          by blast
        with 2 FInt q IH True show ?thesis
          by (simp add: F_NONE_def F_QUERY_def F_ROUTE_def Let_def)
      next
        case False
        with 2 FInt q IH show ?thesis
          by (simp add: F_NONE_def F_QUERY_def F_ROUTE_def Let_def)
      qed
    next
      case 3
      with FInt IH show ?thesis
        by (simp add: F_NONE_def F_QUERY_def F_ROUTE_def F_SOURCE_def)
    next
      case 4
      with FInt IH show ?thesis
        by (simp add: F_NONE_def F_QUERY_def F_ROUTE_def F_SOURCE_def F_SOURCEIP_def)
    qed
  qed
qed

lemma update_qdata_counters [simp]:
  "desyncs (update_qdata f p g) = desyncs g"
  "rcvd (update_qdata f p g) = rcvd g"
  "rcvd_sync (update_qdata f p g) = rcvd_sync g"
  "querycount (update_qdata f p g) = querycount g"
  by (simp_all add: update_qdata_def split: option.splits)

lemma on_response_frame:
  "on_response e g rs plen = (g', rs') \<Longrightarrow>
     desyncs g' = desyncs g \<and> synced rs' = synced rs \<and> resbuffer rs' = resbuffer rs \<and>
     reqbuffer rs' = reqbuffer rs"
  by (auto simp: on_response_def Let_def split: option.splits)

lemma on_request_total:
  assumes "valid_format cfg"
  shows "\<exists>g' rs'. on_request cfg e g rs pdata plen = Inr (g', rs') \<and>
     desyncs g' = desyncs g \<and> synced rs' = synced rs \<and> resbuffer rs' = resbuffer rs \<and>
     reqbuffer rs' = reqbuffer rs"
proof -
  from assms obtain res
    where "format_text cfg (rs\<lparr>reqSent := Some (now e)\<rparr>) pdata (format cfg) [] = Inr res"
    using format_text_total unfolding valid_format_def by blast
  then show ?thesis
    by (simp add: on_request_def Let_def split: option.splits)
qed


lemma processPacket_unsynced_other:
  assumes "\<not> synced rs" and "\<not> (request \<and> carved_type data = COM_QUERY)"
  shows "processPacket cfg e g rs request data =
    Inr (g\<lparr>rcvd := rcvd g + 1,
           desyncs := desyncs g + (if request \<and> resbuffer rs \<noteq> None then 1 else 0)\<rparr>,
         rs\<lparr>reqbuffer := None, resbuffer := None\<rparr>)"
proof -
  obtain ptype pdata buf' where c: "carvePacket (Some data) = Inr ((ptype, pdata), buf')"
    using carvePacket_Inr by blast
  note t = carved_type_eq [OF c]
  show ?thesis
  proof (cases request)
    case False
    with assms show ?thesis
      by (simp add: processPacket_def ingest_response Let_def)
  next
    case True
    with assms t have "ptype \<noteq> COM_QUERY"
      by simp
    with True assms(1) show ?thesis
      by (cases rs) (simp add: processPacket_def ingest_request [OF c] Let_def)
  qed
qed

lemma processPacket_outcome:
  assumes "valid_format cfg"
  shows "\<exists>g' rs'. processPacket cfg e g rs request data = Inr (g', rs') \<and>
     resbuffer rs' = None \<and>
     desyncs g' = desyncs g + (if request \<and> resbuffer rs \<noteq> None then 1 else 0) \<and>
     (synced rs' \<longleftrightarrow>
        (synced rs \<and> \<not> (request \<and> resbuffer rs \<noteq> None)) \<or>
        (request \<and> carved_type data = COM_QUERY))"
proof -
  obtain ptype pdata buf' where c: "carvePacket (Some data) = Inr ((ptype, pdata), buf')"
    using carvePacket_Inr by blast
  note t = carved_type_eq [OF c]
  show ?thesis
  proof (cases request)
    case False
    define g0 where "g0 = (if synced rs then g\<lparr>rcvd := rcvd g + 1, rcvd_sync := rcvd_sync g + 1\<rparr>
        else g\<lparr>rcvd := rcvd g + 1\<rparr>)"
    obtain g1 rs1 where r: "on_response e g0 (rs\<lparr>resbuffer := None\<rparr>) (of_nat (length data)) = (g1, rs1)"
      by (cases "on_response e g0 (rs\<lparr>resbuffer := None\<rparr>) (of_nat (length data))")
    from on_response_frame [OF r] r False show ?thesis
      by (auto simp: processPacket_def ingest_response Let_def buffered_def g0_def)
  next
    case True
    define g0 where "g0 = (let g1 = g\<lparr>rcvd := rcvd g + 1\<rparr>
        in if synced rs then g1\<lparr>rcvd_sync := rcvd_sync g1 + 1\<rparr> else g1)"
    define g1 where "g1 = (if resbuffer rs \<noteq> None then g0\<lparr>desyncs := desyncs g0 + 1\<rparr> else g0)"
    define rs1 where "rs1 = (if resbuffer rs \<noteq> None then rs\<lparr>resbuffer := None, synced := False\<rparr> else rs)
           \<lparr>reqbuffer := buf'\<rparr>"
    have i: "ingest g0 rs True data = Inr (g1, rs1, ptype, pdata)"
      unfolding g1_def rs1_def by (rule ingest_request [OF c])
    have "processPacket cfg e g rs True data =
      (case ingest g0 rs True data of
           Inl err \<Rightarrow> Inl err
         | Inr (g, rs, ptype, pdata) \<Rightarrow>
             if \<not> synced rs \<and> \<not> (True \<and> ptype = COM_QUERY) then
               Inr (g, rs\<lparr>reqbuffer := None, resbuffer := None\<rparr>)
             else
               let rs' = (if \<not> synced rs then rs\<lparr>synced := True\<rparr> else rs)
               in if ptype = - 1 then Inr (g, rs')
                  else
                    let plen = (of_nat (length (buffered pdata)) :: uint64)
                    in if \<not> True then Inr (on_response e g rs' plen)
                       else on_request cfg e g rs' (buffered pdata) plen)"
      by (simp only: processPacket_def g0_def Let_def)
    then have p: "processPacket cfg e g rs True data =
      (if \<not> synced rs1 \<and> ptype \<noteq> COM_QUERY then Inr (g1, rs1\<lparr>reqbuffer := None, resbuffer := None\<rparr>)
       else if ptype = - 1 then Inr (g1, if \<not> synced rs1 then rs1\<lparr>synced := True\<rparr> else rs1)
       else on_request cfg e g1 (if \<not> synced rs1 then rs1\<lparr>synced := True\<rparr> else rs1)
              (buffered pdata) (of_nat (length (buffered pdata))))"
      by (simp add: i Let_def)
    have d: "desyncs g1 = desyncs g + (if resbuffer rs \<noteq> None then 1 else 0)"
      by (simp add: g1_def g0_def Let_def)
    have b: "resbuffer rs1 = None"
      by (simp add: rs1_def)
    have s: "synced rs1 \<longleftrightarrow> synced rs \<and> resbuffer rs = None"
      by (simp add: rs1_def)
    obtain g2 rs2 where q: "on_request cfg e g1 (if \<not> synced rs1 then rs1\<lparr>synced := True\<rparr> else rs1)
              (buffered pdata) (of_nat (length (buffered pdata))) = Inr (g2, rs2)"
      and q1: "desyncs g2 = desyncs g1" and q2: "synced rs2" and q3: "resbuffer rs2 = None"
      using on_request_total [OF assms, of e g1 "if \<not> synced rs1 then rs1\<lparr>synced := True\<rparr> else rs1"
          "buffered pdata" "of_nat (length (buffered pdata))"] b
      by (auto split: if_splits)
    have m: "COM_QUERY \<noteq> (- 1 :: int)"
      by (simp add: COM_QUERY_def)
    from True t p d b s q q1 q2 q3 m show ?thesis
      by (auto split: if_splits)
  qed
qed


lemma run_append:
  "run cfg st (evs @ evs') =
     (case run cfg st evs of Inl err \<Rightarrow> Inl err | Inr st' \<Rightarrow> run cfg st' evs')"
proof (induction evs arbitrary: st)
  case Nil
  then show ?case by simp
next
  case (Cons ev evs)
  obtain g rs where st: "st = (g, rs)"
    by (cases st)
  obtain e request data where ev: "ev = (e, request, data)"
    by (cases ev)
  show ?case
    unfolding st ev by (simp add: Cons.IH split: sum.splits)
qed

lemma run_unsynced:
  assumes "\<not> synced rs" and "list_all (\<lambda>ev. \<not> is_query_request ev) evs"
  shows "\<exists>g' rs'. run cfg (g, rs) evs = Inr (g', rs') \<and> \<not> synced rs'"
  using assms
proof (induction evs arbitrary: g rs)
  case Nil
  then show ?case by simp
next
  case (Cons ev evs)
  obtain e request data where ev: "ev = (e, request, data)"
    by (cases ev)
  with Cons.prems have n: "\<not> (request \<and> carved_type data = COM_QUERY)"
    by (simp add: is_query_request_def)
  note p = processPacket_unsynced_other [OF Cons.prems(1) n, of cfg e g]
  from Cons.prems have "list_all (\<lambda>ev. \<not> is_query_request ev) evs"
    by simp
  from Cons.IH [OF _ this, of "rs\<lparr>reqbuffer := None, resbuffer := None\<rparr>"] Cons.prems(1)
  show ?case
    unfolding ev by (simp add: p)
qed




lemma valid_default: "valid_format default_config"
  by (simp add: valid_format_def default_config_def)

lemma carved_query: "carved_type [2, 0, 0, 0, 3, 83] = COM_QUERY"
  by (simp add: carved_type_def carvePacket_nat Let_def buffered_def declared_length_def COM_QUERY_def)





text \<open>
  C2, as amended. On an unsynced flow, a call that is not a request whose chunk
  carves a query frame clears both buffers and changes nothing else of the flow; of
  the globals it changes the packet counter, which every call increments, and the
  desync counter, by one when the call is a request and the response buffer was not
  \<open>nil\<close>. A request whose chunk carves a query frame leaves the flow synced. So
  the flow is unsynced after any sequence of calls none of which is such a request,
  and synced after the first one that is.
\<close>

theorem unsynced_until_query:
  assumes "\<not> synced rs"
  shows "(\<not> (request \<and> carved_type data = COM_QUERY) \<longrightarrow>
      processPacket cfg e g rs request data =
        Inr (g\<lparr>rcvd := rcvd g + 1,
               desyncs := desyncs g + (if request \<and> resbuffer rs \<noteq> None then 1 else 0)\<rparr>,
             rs\<lparr>reqbuffer := None, resbuffer := None\<rparr>)) \<and>
    (valid_format cfg \<and> request \<and> carved_type data = COM_QUERY \<longrightarrow>
      (\<exists>g' rs'. processPacket cfg e g rs request data = Inr (g', rs') \<and> synced rs')) \<and>
    (list_all (\<lambda>ev. \<not> is_query_request ev) evs \<longrightarrow>
      (\<exists>g' rs'. run cfg (g, rs) evs = Inr (g', rs') \<and> \<not> synced rs') \<and>
      (valid_format cfg \<and> is_query_request ev \<longrightarrow>
         (\<exists>g' rs'. run cfg (g, rs) (evs @ [ev]) = Inr (g', rs') \<and> synced rs')))"
proof (intro conjI impI)
  assume "\<not> (request \<and> carved_type data = COM_QUERY)"
  from processPacket_unsynced_other [OF assms this]
  show "processPacket cfg e g rs request data =
        Inr (g\<lparr>rcvd := rcvd g + 1,
               desyncs := desyncs g + (if request \<and> resbuffer rs \<noteq> None then 1 else 0)\<rparr>,
             rs\<lparr>reqbuffer := None, resbuffer := None\<rparr>)" .
next
  assume "valid_format cfg \<and> request \<and> carved_type data = COM_QUERY"
  then show "\<exists>g' rs'. processPacket cfg e g rs request data = Inr (g', rs') \<and> synced rs'"
    using processPacket_outcome [of cfg e g rs request data] by auto
next
  assume l: "list_all (\<lambda>ev. \<not> is_query_request ev) evs"
  from run_unsynced [OF assms l]
  show "\<exists>g' rs'. run cfg (g, rs) evs = Inr (g', rs') \<and> \<not> synced rs'" .
next
  assume l: "list_all (\<lambda>ev. \<not> is_query_request ev) evs"
    and "valid_format cfg \<and> is_query_request ev"
  then have v: "valid_format cfg" and q: "is_query_request ev"
    by simp_all
  from run_unsynced [OF assms l] obtain g1 rs1
    where r: "run cfg (g, rs) evs = Inr (g1, rs1)"
    by blast
  obtain e1 request1 data1 where ev: "ev = (e1, request1, data1)"
    by (cases ev)
  with q have "request1 \<and> carved_type data1 = COM_QUERY"
    by (simp add: is_query_request_def)
  with processPacket_outcome [OF v, of e1 g1 rs1 request1 data1]
  obtain g2 rs2 where "processPacket cfg e1 g1 rs1 request1 data1 = Inr (g2, rs2)" and "synced rs2"
    by auto
  then show "\<exists>g' rs'. run cfg (g, rs) (evs @ [ev]) = Inr (g', rs') \<and> synced rs'"
    by (simp add: run_append r ev)
qed

theorem unsynced_until_query_witness:
  "\<not> synced (new_source [] []) \<and>
   \<not> is_query_request (env0, False, [7]) \<and>
   \<not> is_query_request (env0, True, [9, 0, 0, 0, 3, 1]) \<and>
   valid_format default_config \<and>
   is_query_request (env0, True, [2, 0, 0, 0, 3, 83]) \<and>
   (\<exists>g' rs'. run default_config (initial_globals, new_source [] [])
        [(env0, False, [7]), (env0, True, [9, 0, 0, 0, 3, 1])] = Inr (g', rs') \<and> \<not> synced rs') \<and>
   (\<exists>g' rs'. run default_config (initial_globals, new_source [] [])
        ([(env0, False, [7]), (env0, True, [9, 0, 0, 0, 3, 1])] @ [(env0, True, [2, 0, 0, 0, 3, 83])])
          = Inr (g', rs') \<and> synced rs')"
proof -
  have a: "\<not> synced (new_source [] [])"
    by (simp add: new_source_def)
  have b: "\<not> is_query_request (env0, False, [7])"
    by (simp add: is_query_request_def)
  have c: "\<not> is_query_request (env0, True, [9, 0, 0, 0, 3, 1])"
    by (simp add: is_query_request_def carved_type_def carvePacket_nat Let_def buffered_def
        declared_length_def COM_QUERY_def)
  have d: "is_query_request (env0, True, [2, 0, 0, 0, 3, 83])"
    by (simp add: is_query_request_def carved_query)
  from b c have l: "list_all (\<lambda>ev. \<not> is_query_request ev)
      [(env0, False, [7]), (env0, True, [9, 0, 0, 0, 3, 1])]"
    by simp
  from unsynced_until_query [OF a, of False "[7]" default_config env0 initial_globals
      "[(env0, False, [7]), (env0, True, [9, 0, 0, 0, 3, 1])]" "(env0, True, [2, 0, 0, 0, 3, 83])"]
    a b c d l valid_default
  show ?thesis
    by blast
qed

text \<open>
  C2 as stated lets such a call change nothing but the two buffers. A response chunk
  on a new flow, with the globals as the program starts, returns with the packet
  counter at 1.
\<close>

theorem unsynced_noop_counterexample:
  "\<not> synced (new_source [] []) \<and>
   processPacket default_config env0 initial_globals (new_source [] []) False [7] =
     Inr (initial_globals\<lparr>rcvd := 1\<rparr>, new_source [] []) \<and>
   rcvd initial_globals = 0 \<and>
   \<not> (\<forall>cfg e g rs request data.
        \<not> synced rs \<and> \<not> (request \<and> carved_type data = COM_QUERY) \<longrightarrow>
        processPacket cfg e g rs request data =
          Inr (g, rs\<lparr>reqbuffer := None, resbuffer := None\<rparr>))"
proof (intro conjI)
  show "\<not> synced (new_source [] [])"
    by (simp add: new_source_def)
  show p: "processPacket default_config env0 initial_globals (new_source [] []) False [7] =
      Inr (initial_globals\<lparr>rcvd := 1\<rparr>, new_source [] [])"
    using processPacket_unsynced_other [of "new_source [] []" False "[7]"
        default_config env0 initial_globals]
    by (simp add: new_source_def initial_globals_def)
  show "rcvd initial_globals = 0"
    by (simp add: initial_globals_def)
  show "\<not> (\<forall>cfg e g rs request data.
        \<not> synced rs \<and> \<not> (request \<and> carved_type data = COM_QUERY) \<longrightarrow>
        processPacket cfg e g rs request data =
          Inr (g, rs\<lparr>reqbuffer := None, resbuffer := None\<rparr>))"
  proof
    assume "\<forall>cfg e g rs request data.
        \<not> synced rs \<and> \<not> (request \<and> carved_type data = COM_QUERY) \<longrightarrow>
        processPacket cfg e g rs request data =
          Inr (g, rs\<lparr>reqbuffer := None, resbuffer := None\<rparr>)"
    then have "processPacket default_config env0 initial_globals (new_source [] []) False [7] =
      Inr (initial_globals, (new_source [] [])\<lparr>reqbuffer := None, resbuffer := None\<rparr>)"
      by (simp add: new_source_def)
    with p show False
      by (simp add: initial_globals_def)
  qed
qed

section \<open>Facts about handleStatusUpdate\<close>











end
